theory Spec2Isabelle
  imports Complex_Main "HOL-Library.Word" "HOL-Library.AList" "HOL-Library.Log_Nat"
begin

section \<open>The tracker report page: reading a report from the URL fragment\<close>

text \<open>
  The page \<^verbatim>\<open>frontend/src/pages/tracker-report.page.tsx\<close> reads its report from
  \<^verbatim>\<open>window.location.hash\<close> with two functions, \<^verbatim>\<open>parseHash\<close> and
  \<^verbatim>\<open>containsReportData\<close>. Both are embedded here, together with the parts of the
  JavaScript platform they call: \<^verbatim>\<open>String.prototype.substring\<close>,
  \<^verbatim>\<open>decodeURIComponent\<close>, \<^verbatim>\<open>JSON.parse\<close>, \<^verbatim>\<open>typeof\<close>,
  \<^verbatim>\<open>Number.isInteger\<close>, \<^verbatim>\<open>Array.isArray\<close> and \<^verbatim>\<open>Array.prototype.every\<close>,
  each following its definition in ECMA-262.
\<close>

subsection \<open>JavaScript values\<close>

text \<open>A JavaScript string is a sequence of 16-bit code units.\<close>

type_synonym code_unit = "16 word"
type_synonym jsstring = "code_unit list"

text \<open>The code units of an ASCII literal.\<close>

definition ascii :: "string \<Rightarrow> jsstring" where
  "ascii s = map (\<lambda>c. of_nat (of_char c)) s"

text \<open>
  A Number is an IEEE 754 double: a finite value (always a rational), negative zero, an
  infinity or NaN. \<open>Finite q\<close> is used only with \<open>q\<close> a double.
\<close>

datatype jsnumber = Finite rat | NegZero | PosInfinity | NegInfinity | NaN

datatype jsvalue =
    JUndefined
  | JNull
  | JBoolean bool
  | JNumber jsnumber
  | JString jsstring
  | JArray "jsvalue list"
  | JObject "(jsstring \<times> jsvalue) list"

text \<open>The exceptions the platform functions throw.\<close>

datatype js_error = URIError | SyntaxError | TypeError

datatype js_type = Type_undefined | Type_object | Type_boolean | Type_number | Type_string

text \<open>\<^verbatim>\<open>typeof v\<close>: \<^verbatim>\<open>null\<close> and arrays are of type "object".\<close>

fun typeof :: "jsvalue \<Rightarrow> js_type" where
  "typeof JUndefined = Type_undefined"
| "typeof JNull = Type_object"
| "typeof (JBoolean b) = Type_boolean"
| "typeof (JNumber n) = Type_number"
| "typeof (JString s) = Type_string"
| "typeof (JArray vs) = Type_object"
| "typeof (JObject ms) = Type_object"

text \<open>
  \<^verbatim>\<open>v.name\<close>, for a name that no prototype defines and that is no array index, as
  \<^verbatim>\<open>sender\<close>, \<^verbatim>\<open>received_at\<close> and \<^verbatim>\<open>trackers\<close> are: reading it from
  \<^verbatim>\<open>undefined\<close> or \<^verbatim>\<open>null\<close> throws a TypeError, an object gives its own property
  or \<^verbatim>\<open>undefined\<close>, and every other value gives \<^verbatim>\<open>undefined\<close>.
\<close>

fun Get :: "jsvalue \<Rightarrow> jsstring \<Rightarrow> js_error + jsvalue" where
  "Get JUndefined name = Inl TypeError"
| "Get JNull name = Inl TypeError"
| "Get (JObject ms) name = (case map_of ms name of None \<Rightarrow> Inr JUndefined | Some v \<Rightarrow> Inr v)"
| "Get v name = Inr JUndefined"

text \<open>
  \<^verbatim>\<open>Number.isInteger(v)\<close>: \<open>v\<close> is a Number, is finite and has no fractional part.
\<close>

fun Number_isInteger :: "jsvalue \<Rightarrow> bool" where
  "Number_isInteger (JNumber (Finite q)) = (of_int \<lfloor>q\<rfloor> = q)"
| "Number_isInteger (JNumber NegZero) = True"
| "Number_isInteger v = False"

fun Array_isArray :: "jsvalue \<Rightarrow> bool" where
  "Array_isArray (JArray vs) = True"
| "Array_isArray v = False"

text \<open>
  \<^verbatim>\<open>v.every(p)\<close>: on an array, whether \<open>p\<close> holds of every element; a value without
  the method throws a TypeError.
\<close>

fun every :: "jsvalue \<Rightarrow> (jsvalue \<Rightarrow> bool) \<Rightarrow> js_error + bool" where
  "every (JArray vs) p = Inr (list_all p vs)"
| "every v p = Inl TypeError"

text \<open>\<^verbatim>\<open>s.substring(start)\<close>: the code units from index \<open>start\<close> to the end.\<close>

definition substring :: "jsstring \<Rightarrow> nat \<Rightarrow> jsstring" where
  "substring s start = drop start s"

subsection \<open>\<^verbatim>\<open>decodeURIComponent\<close>\<close>

text \<open>The value of a hexadecimal digit.\<close>

definition hex_digit :: "code_unit \<Rightarrow> nat option" where
  "hex_digit c =
     (let n = unat c in
      if 48 \<le> n \<and> n \<le> 57 then Some (n - 48)
      else if 65 \<le> n \<and> n \<le> 70 then Some (n - 55)
      else if 97 \<le> n \<and> n \<le> 102 then Some (n - 87)
      else None)"

text \<open>ParseHexOctet: the two hexadecimal digits that follow a \<^verbatim>\<open>%\<close>.\<close>

fun hex_octet :: "jsstring \<Rightarrow> (nat \<times> jsstring) option" where
  "hex_octet (a # b # rest) =
     (case hex_digit a of
        None \<Rightarrow> None
      | Some h \<Rightarrow> (case hex_digit b of None \<Rightarrow> None | Some l \<Rightarrow> Some (16 * h + l, rest)))"
| "hex_octet s = None"

text \<open>The number of leading 1 bits of an octet (5 stands for 5 or more).\<close>

definition leading_ones :: "nat \<Rightarrow> nat" where
  "leading_ones b =
     (if b < 128 then 0 else if b < 192 then 1 else if b < 224 then 2
      else if b < 240 then 3 else if b < 248 then 4 else 5)"

text \<open>The \<open>j\<close> continuation octets of a UTF-8 sequence, each written \<^verbatim>\<open>%XX\<close>.\<close>

fun continuation :: "nat \<Rightarrow> jsstring \<Rightarrow> (nat list \<times> jsstring) option" where
  "continuation 0 s = Some ([], s)"
| "continuation (Suc j) [] = None"
| "continuation (Suc j) (c # s) =
     (if c \<noteq> 0x25 then None
      else case hex_octet s of
        None \<Rightarrow> None
      | Some (b, r) \<Rightarrow>
          (case continuation j r of None \<Rightarrow> None | Some (bs, r') \<Rightarrow> Some (b # bs, r')))"

definition is_continuation_octet :: "nat \<Rightarrow> bool" where
  "is_continuation_octet b = (128 \<le> b \<and> b < 192)"

text \<open>
  The code point of a multi-octet sequence, when the octets are a valid UTF-8 encoding:
  continuation octets in range, no overlong form, no surrogate, at most U+10FFFF.
\<close>

fun utf8_code_point :: "nat list \<Rightarrow> nat option" where
  "utf8_code_point [b0, b1] =
     (let v = (b0 - 192) * 64 + (b1 - 128) in
      if is_continuation_octet b1 \<and> 128 \<le> v then Some v else None)"
| "utf8_code_point [b0, b1, b2] =
     (let v = (b0 - 224) * 4096 + (b1 - 128) * 64 + (b2 - 128) in
      if is_continuation_octet b1 \<and> is_continuation_octet b2 \<and> 2048 \<le> v
         \<and> \<not> (55296 \<le> v \<and> v < 57344)
      then Some v else None)"
| "utf8_code_point [b0, b1, b2, b3] =
     (let v = (b0 - 240) * 262144 + (b1 - 128) * 4096 + (b2 - 128) * 64 + (b3 - 128) in
      if is_continuation_octet b1 \<and> is_continuation_octet b2 \<and> is_continuation_octet b3
         \<and> 65536 \<le> v \<and> v < 1114112
      then Some v else None)"
| "utf8_code_point bs = None"

text \<open>UTF16EncodeCodePoint: one code unit, or a surrogate pair above U+FFFF.\<close>

definition UTF16EncodeCodePoint :: "nat \<Rightarrow> jsstring" where
  "UTF16EncodeCodePoint v =
     (if v < 65536 then [of_nat v]
      else [of_nat (55296 + (v - 65536) div 1024), of_nat (56320 + (v - 65536) mod 1024)])"

text \<open>The decoded prefix \<open>pre\<close> before the decoding of the rest, when that succeeds.\<close>

definition prepend :: "'a list \<Rightarrow> 'e + 'a list \<Rightarrow> 'e + 'a list" where
  "prepend pre r = (case r of Inl e \<Rightarrow> Inl e | Inr s \<Rightarrow> Inr (pre @ s))"

lemma hex_octet_length: "hex_octet s = Some (b, r) \<Longrightarrow> length r < length s"
  by (induction s rule: hex_octet.induct) (auto split: option.splits)

lemma continuation_length: "continuation j s = Some (bs, r) \<Longrightarrow> length r \<le> length s"
proof (induction j s arbitrary: bs r rule: continuation.induct)
  case (3 j c s)
  then show ?case
    by (fastforce split: if_splits option.splits dest: hex_octet_length)
qed auto

text \<open>
  Decode with an empty set of preserved escapes: a code unit other than \<^verbatim>\<open>%\<close> stands
  for itself; \<^verbatim>\<open>%XX\<close> is an octet, an ASCII character or the first octet of a UTF-8
  sequence whose other octets follow as \<^verbatim>\<open>%XX\<close>. Anything else throws a URIError.
\<close>

function Decode :: "jsstring \<Rightarrow> js_error + jsstring" where
  "Decode [] = Inr []"
| "Decode (c # s) =
     (if c \<noteq> 0x25 then prepend [c] (Decode s)
      else case hex_octet s of
        None \<Rightarrow> Inl URIError
      | Some (b, r) \<Rightarrow>
          (let n = leading_ones b in
           if n = 0 then prepend [of_nat b] (Decode r)
           else if n = 1 \<or> 4 < n then Inl URIError
           else case continuation (n - 1) r of
             None \<Rightarrow> Inl URIError
           | Some (bs, r') \<Rightarrow>
               (case utf8_code_point (b # bs) of
                  None \<Rightarrow> Inl URIError
                | Some v \<Rightarrow> prepend (UTF16EncodeCodePoint v) (Decode r'))))"
  by pat_completeness auto
termination
proof (relation "measure length", goal_cases)
  case 1
  show ?case by simp
next
  case (2 c s)
  then show ?case by simp
next
  case (3 c s x2 b r n)
  then show ?case using hex_octet_length [of s b r] by simp
next
  case (4 c s x2 b r n x2a bs r')
  then show ?case
    using hex_octet_length [of s b r] continuation_length [of "n - 1" r bs r'] by simp
qed

definition decodeURIComponent :: "jsstring \<Rightarrow> js_error + jsstring" where
  "decodeURIComponent s = Decode s"

subsection \<open>\<^verbatim>\<open>JSON.parse\<close>: numbers\<close>

text \<open>The integer nearest to \<open>a / b\<close>, the even one of two that are equally near.\<close>

definition round_half_even :: "nat \<Rightarrow> nat \<Rightarrow> nat" where
  "round_half_even a b =
     (let q = a div b; r = a mod b in
      if 2 * r < b then q else if b < 2 * r then q + 1
      else if even q then q else q + 1)"

text \<open>\<open>\<lfloor>log\<^sub>2 (a / b)\<rfloor>\<close> for positive \<open>a\<close> and \<open>b\<close>.\<close>

definition floor_log2 :: "nat \<Rightarrow> nat \<Rightarrow> int" where
  "floor_log2 a b =
     (let d = int (floorlog 2 a) - int (floorlog 2 b) in
      if (if 0 \<le> d then b * 2 ^ nat d \<le> a else b \<le> a * 2 ^ nat (- d)) then d else d - 1)"

text \<open>\<open>m \<times> 2\<^sup>p\<close>.\<close>

definition scale2 :: "nat \<Rightarrow> int \<Rightarrow> rat" where
  "scale2 m p = (if 0 \<le> p then of_nat (m * 2 ^ nat p) else of_nat m / of_nat (2 ^ nat (- p)))"

text \<open>
  The Number value for \<open>a / b\<close> (\<open>b\<close> positive): the double nearest to it, ties
  going to the even significand. A double is a multiple of \<open>2\<^sup>p\<close> by a significand
  below \<open>2\<^sup>5\<^sup>3\<close>, where \<open>p\<close> is at least -1074; a result of \<open>2\<^sup>1\<^sup>0\<^sup>2\<^sup>4\<close> or more is
  \<^verbatim>\<open>Infinity\<close>.
\<close>

definition Number_value :: "nat \<Rightarrow> nat \<Rightarrow> jsnumber" where
  "Number_value a b =
     (if a = 0 then Finite 0
      else
        let p = max (floor_log2 a b - 52) (- 1074);
            m = (if 0 \<le> p then round_half_even a (b * 2 ^ nat p)
                 else round_half_even (a * 2 ^ nat (- p)) b)
        in if 0 \<le> p \<and> 2 ^ 1024 \<le> m * 2 ^ nat p then PosInfinity else Finite (scale2 m p))"

text \<open>The Number value for \<open>m \<times> 10\<^sup>x\<close>, the value of a decimal literal.\<close>

definition Number_of_decimal :: "nat \<Rightarrow> int \<Rightarrow> jsnumber" where
  "Number_of_decimal m x =
     (if 0 \<le> x then Number_value (m * 10 ^ nat x) 1 else Number_value m (10 ^ nat (- x)))"

text \<open>Unary minus.\<close>

fun negate :: "jsnumber \<Rightarrow> jsnumber" where
  "negate (Finite q) = (if q = 0 then NegZero else Finite (- q))"
| "negate NegZero = Finite 0"
| "negate PosInfinity = NegInfinity"
| "negate NegInfinity = PosInfinity"
| "negate NaN = NaN"

definition is_digit :: "code_unit \<Rightarrow> bool" where
  "is_digit c = (48 \<le> unat c \<and> unat c \<le> 57)"

text \<open>The value of a sequence of decimal digits.\<close>

definition digits_value :: "jsstring \<Rightarrow> nat" where
  "digits_value ds = foldl (\<lambda>a c. 10 * a + (unat c - 48)) 0 ds"

text \<open>The integer part of a JSON number: \<^verbatim>\<open>0\<close>, or digits that do not start with 0.\<close>

definition scan_int :: "jsstring \<Rightarrow> (jsstring \<times> jsstring) option" where
  "scan_int s =
     (case s of
        [] \<Rightarrow> None
      | c # r \<Rightarrow>
          if c = 0x30 then Some ([c], r)
          else if is_digit c then Some (takeWhile is_digit s, dropWhile is_digit s)
          else None)"

text \<open>The optional fraction: a point and at least one digit.\<close>

definition scan_frac :: "jsstring \<Rightarrow> (jsstring \<times> jsstring) option" where
  "scan_frac s =
     (case s of
        [] \<Rightarrow> Some ([], s)
      | c # r \<Rightarrow>
          if c = 0x2E then
            (if takeWhile is_digit r = [] then None
             else Some (takeWhile is_digit r, dropWhile is_digit r))
          else Some ([], s))"

text \<open>The sign of an exponent, when one is written.\<close>

definition scan_sign :: "jsstring \<Rightarrow> bool \<times> jsstring" where
  "scan_sign s =
     (case s of
        [] \<Rightarrow> (False, s)
      | c # r \<Rightarrow> if c = 0x2D then (True, r) else if c = 0x2B then (False, r) else (False, s))"

text \<open>The optional exponent: \<^verbatim>\<open>e\<close> or \<^verbatim>\<open>E\<close>, an optional sign, at least one digit.\<close>

definition scan_exp :: "jsstring \<Rightarrow> (int \<times> jsstring) option" where
  "scan_exp s =
     (case s of
        [] \<Rightarrow> Some (0, s)
      | c # r \<Rightarrow>
          if c = 0x65 \<or> c = 0x45 then
            (case scan_sign r of
               (neg, r') \<Rightarrow>
                 if takeWhile is_digit r' = [] then None
                 else Some ((if neg then - int (digits_value (takeWhile is_digit r'))
                             else int (digits_value (takeWhile is_digit r'))),
                            dropWhile is_digit r'))
          else Some (0, s))"

text \<open>
  A JSON number at the head of the text and what follows it: an optional minus, the
  integer part, the optional fraction and exponent.
\<close>

definition scan_number :: "jsstring \<Rightarrow> (jsnumber \<times> jsstring) option" where
  "scan_number s =
     (case (case s of [] \<Rightarrow> (False, s) | c # r \<Rightarrow> if c = 0x2D then (True, r) else (False, s)) of
        (neg, s0) \<Rightarrow>
          (case scan_int s0 of
             None \<Rightarrow> None
           | Some (ip, s1) \<Rightarrow>
               (case scan_frac s1 of
                  None \<Rightarrow> None
                | Some (fp, s2) \<Rightarrow>
                    (case scan_exp s2 of
                       None \<Rightarrow> None
                     | Some (x, s3) \<Rightarrow>
                         (let n = Number_of_decimal (digits_value (ip @ fp)) (x - int (length fp))
                          in Some (if neg then negate n else n, s3))))))"

subsection \<open>\<^verbatim>\<open>JSON.parse\<close>: strings\<close>

text \<open>The character a single-character escape stands for.\<close>

definition escape_char :: "code_unit \<Rightarrow> code_unit option" where
  "escape_char e =
     (if e = 0x22 then Some 0x22 else if e = 0x5C then Some 0x5C
      else if e = 0x2F then Some 0x2F else if e = 0x62 then Some 8
      else if e = 0x66 then Some 12 else if e = 0x6E then Some 10
      else if e = 0x72 then Some 13 else if e = 0x74 then Some 9 else None)"

text \<open>The four hexadecimal digits of a \<^verbatim>\<open>\u\<close> escape.\<close>

fun hex4 :: "jsstring \<Rightarrow> (code_unit \<times> jsstring) option" where
  "hex4 (a # b # c # d # rest) =
     (case hex_digit a of None \<Rightarrow> None | Some w \<Rightarrow>
       (case hex_digit b of None \<Rightarrow> None | Some x \<Rightarrow>
         (case hex_digit c of None \<Rightarrow> None | Some y \<Rightarrow>
           (case hex_digit d of None \<Rightarrow> None | Some z \<Rightarrow>
              Some (of_nat (((w * 16 + x) * 16 + y) * 16 + z), rest)))))"
| "hex4 s = None"

definition add_unit :: "code_unit \<Rightarrow> (jsstring \<times> jsstring) option \<Rightarrow> (jsstring \<times> jsstring) option" where
  "add_unit u res = (case res of None \<Rightarrow> None | Some (str, r) \<Rightarrow> Some (u # str, r))"

lemma hex4_length: "hex4 s = Some (u, r) \<Longrightarrow> length r < length s"
  by (induction s rule: hex4.induct) (auto split: option.splits)

text \<open>
  The characters of a JSON string after its opening quote, up to the closing quote, and
  what follows it. A control character below U+0020 may not be written unescaped.
\<close>

function scan_string :: "jsstring \<Rightarrow> (jsstring \<times> jsstring) option" where
  "scan_string [] = None"
| "scan_string (c # s) =
     (if c = 0x22 then Some ([], s)
      else if c = 0x5C then
        (case s of
           [] \<Rightarrow> None
         | e # s' \<Rightarrow>
             if e = 0x75 then
               (case hex4 s' of None \<Rightarrow> None | Some (u, r) \<Rightarrow> add_unit u (scan_string r))
             else
               (case escape_char e of None \<Rightarrow> None | Some u \<Rightarrow> add_unit u (scan_string s')))
      else if unat c < 0x20 then None
      else add_unit c (scan_string s))"
  by pat_completeness auto
termination
proof (relation "measure length", goal_cases)
  case (2 c s e s' x2 u r)
  then show ?case using hex4_length [of s' u r] by simp
qed auto

subsection \<open>\<^verbatim>\<open>JSON.parse\<close>: tokens\<close>

datatype token =
    LBrace | RBrace | LBracket | RBracket | Colon | Comma
  | StringToken jsstring
  | NumberToken jsnumber
  | TrueToken | FalseToken | NullToken

text \<open>JSON white space: tab, line feed, carriage return and space.\<close>

definition is_whitespace :: "code_unit \<Rightarrow> bool" where
  "is_whitespace c = (c = 0x09 \<or> c = 0x0A \<or> c = 0x0D \<or> c = 0x20)"

definition add_token :: "token \<Rightarrow> token list option \<Rightarrow> token list option" where
  "add_token t res = (case res of None \<Rightarrow> None | Some ts \<Rightarrow> Some (t # ts))"

lemma scan_string_length: "scan_string s = Some (str, r) \<Longrightarrow> length r < length s"
proof (induction s arbitrary: str rule: scan_string.induct)
  case 1
  then show ?case by simp
next
  case (2 c s)
  show ?case
  proof (cases "c = 0x22")
    case True
    with "2.prems" show ?thesis by simp
  next
    case quote: False
    show ?thesis
    proof (cases "c = 0x5C")
      case False
      with quote "2.prems" "2.IH"(3) show ?thesis
        by (fastforce simp: add_unit_def split: if_splits option.splits)
    next
      case True
      with quote "2.prems" obtain e s' where s: "s = e # s'"
        by (cases s) auto
      show ?thesis
      proof (cases "e = 0x75")
        case True
        with quote \<open>c = 0x5C\<close> s "2.prems" "2.IH"(1) hex4_length show ?thesis
          by (fastforce simp: add_unit_def split: option.splits)
      next
        case False
        with quote \<open>c = 0x5C\<close> s "2.prems" "2.IH"(2) show ?thesis
          by (fastforce simp: add_unit_def split: option.splits)
      qed
    qed
  qed
qed

lemma scan_int_length: "scan_int s = Some (ip, r) \<Longrightarrow> length r < length s"
proof (cases s)
  case Nil
  then show "scan_int s = Some (ip, r) \<Longrightarrow> length r < length s"
    by (simp add: scan_int_def)
next
  case (Cons c t)
  assume "scan_int s = Some (ip, r)"
  with Cons have "r = t \<or> (is_digit c \<and> r = dropWhile is_digit t)"
    by (auto simp: scan_int_def split: if_splits)
  with Cons show "length r < length s"
    using length_dropWhile_le [of is_digit t] by auto
qed

lemma scan_frac_length: "scan_frac s = Some (fp, r) \<Longrightarrow> length r \<le> length s"
  using length_dropWhile_le [of is_digit "tl s"]
  by (cases s) (auto simp: scan_frac_def split: if_splits)

lemma scan_sign_length: "scan_sign s = (neg, r) \<Longrightarrow> length r \<le> length s"
  by (cases s) (auto simp: scan_sign_def split: if_splits)

lemma scan_exp_length: "scan_exp s = Some (x, r) \<Longrightarrow> length r \<le> length s"
proof (cases s)
  case Nil
  then show "scan_exp s = Some (x, r) \<Longrightarrow> length r \<le> length s"
    by (simp add: scan_exp_def)
next
  case (Cons c t)
  assume a: "scan_exp s = Some (x, r)"
  obtain neg r' where sg: "scan_sign t = (neg, r')"
    by (cases "scan_sign t")
  from a Cons sg have "r = s \<or> r = dropWhile is_digit r'"
    by (auto simp: scan_exp_def split: if_splits)
  with Cons scan_sign_length [OF sg] show "length r \<le> length s"
    using length_dropWhile_le [of is_digit r'] by auto
qed

lemma scan_number_length: "scan_number s = Some (n, r) \<Longrightarrow> length r < length s"
proof -
  assume a: "scan_number s = Some (n, r)"
  define s0 where "s0 = snd (case s of [] \<Rightarrow> (False, s) | c # t \<Rightarrow> if c = 0x2D then (True, t) else (False, s))"
  have s0: "length s0 \<le> length s"
    by (cases s) (auto simp: s0_def)
  from a obtain ip s1 fp s2 x where
    "scan_int s0 = Some (ip, s1)" "scan_frac s1 = Some (fp, s2)" "scan_exp s2 = Some (x, r)"
    by (cases s) (auto simp: scan_number_def s0_def Let_def split: if_splits option.splits)
  with s0 show ?thesis
    using scan_int_length [of s0 ip s1] scan_frac_length [of s1 fp s2] scan_exp_length [of s2 x r]
    by simp
qed

text \<open>
  The tokens of a JSON text: white space separates them, a string starts at a quote, a
  number at a minus or a digit, and the three literal names are spelt out. A character
  that starts no token makes the text ill-formed.
\<close>

function tokenize :: "jsstring \<Rightarrow> token list option" where
  "tokenize [] = Some []"
| "tokenize (c # s) =
     (if is_whitespace c then tokenize s
      else if c = 0x7B then add_token LBrace (tokenize s)
      else if c = 0x7D then add_token RBrace (tokenize s)
      else if c = 0x5B then add_token LBracket (tokenize s)
      else if c = 0x5D then add_token RBracket (tokenize s)
      else if c = 0x3A then add_token Colon (tokenize s)
      else if c = 0x2C then add_token Comma (tokenize s)
      else if c = 0x22 then
        (case scan_string s of
           None \<Rightarrow> None
         | Some (str, r) \<Rightarrow> add_token (StringToken str) (tokenize r))
      else if c = 0x2D \<or> is_digit c then
        (case scan_number (c # s) of
           None \<Rightarrow> None
         | Some (n, r) \<Rightarrow> add_token (NumberToken n) (tokenize r))
      else if take 4 (c # s) = ascii ''true'' then add_token TrueToken (tokenize (drop 3 s))
      else if take 5 (c # s) = ascii ''false'' then add_token FalseToken (tokenize (drop 4 s))
      else if take 4 (c # s) = ascii ''null'' then add_token NullToken (tokenize (drop 3 s))
      else None)"
  by pat_completeness auto
termination
  by (relation "measure length")
    (auto dest: scan_string_length scan_number_length)

subsection \<open>\<^verbatim>\<open>JSON.parse\<close>: values\<close>

text \<open>
  CreateDataProperty: a member of an object literal replaces the value of an earlier
  member with the same name, or is added after the others.
\<close>

definition define_property ::
  "(jsstring \<times> jsvalue) list \<Rightarrow> jsstring \<Rightarrow> jsvalue \<Rightarrow> (jsstring \<times> jsvalue) list" where
  "define_property ms k v = AList.update k v ms"

text \<open>
  The enclosing arrays and objects that are still open: the elements of an array read so
  far, or the members of an object read so far with the name of the member being read.
\<close>

datatype frame =
    ArrayFrame "jsvalue list"
  | ObjectFrame "(jsstring \<times> jsvalue) list" jsstring

text \<open>
  Where the reading of a JSON text stands: a value must follow; a bracket or a brace has
  just been opened; a member name must follow a comma; the colon after a member name
  must follow; a value is complete.
\<close>

datatype parser_state =
    ExpectValue "frame list"
  | ArrayStart "frame list"
  | ObjectStart "frame list"
  | ExpectName "(jsstring \<times> jsvalue) list" "frame list"
  | ExpectColon "(jsstring \<times> jsvalue) list" jsstring "frame list"
  | AfterValue jsvalue "frame list"

text \<open>The token that starts a value, below the open frames \<open>st\<close>.\<close>

fun begin_value :: "frame list \<Rightarrow> token \<Rightarrow> parser_state option" where
  "begin_value st LBracket = Some (ArrayStart st)"
| "begin_value st LBrace = Some (ObjectStart st)"
| "begin_value st (StringToken s) = Some (AfterValue (JString s) st)"
| "begin_value st (NumberToken n) = Some (AfterValue (JNumber n) st)"
| "begin_value st TrueToken = Some (AfterValue (JBoolean True) st)"
| "begin_value st FalseToken = Some (AfterValue (JBoolean False) st)"
| "begin_value st NullToken = Some (AfterValue JNull st)"
| "begin_value st t = None"

text \<open>One token of the JSON grammar; \<open>None\<close> when the token may not come here.\<close>

fun step :: "parser_state \<Rightarrow> token \<Rightarrow> parser_state option" where
  "step (ExpectValue st) t = begin_value st t"
| "step (ArrayStart st) RBracket = Some (AfterValue (JArray []) st)"
| "step (ArrayStart st) t = begin_value (ArrayFrame [] # st) t"
| "step (ObjectStart st) RBrace = Some (AfterValue (JObject []) st)"
| "step (ObjectStart st) (StringToken k) = Some (ExpectColon [] k st)"
| "step (ObjectStart st) t = None"
| "step (ExpectName ms st) (StringToken k) = Some (ExpectColon ms k st)"
| "step (ExpectName ms st) t = None"
| "step (ExpectColon ms k st) Colon = Some (ExpectValue (ObjectFrame ms k # st))"
| "step (ExpectColon ms k st) t = None"
| "step (AfterValue v (ArrayFrame vs # st)) Comma = Some (ExpectValue (ArrayFrame (vs @ [v]) # st))"
| "step (AfterValue v (ArrayFrame vs # st)) RBracket = Some (AfterValue (JArray (vs @ [v])) st)"
| "step (AfterValue v (ObjectFrame ms k # st)) Comma = Some (ExpectName (define_property ms k v) st)"
| "step (AfterValue v (ObjectFrame ms k # st)) RBrace =
     Some (AfterValue (JObject (define_property ms k v)) st)"
| "step (AfterValue v st) t = None"

fun run :: "parser_state \<Rightarrow> token list \<Rightarrow> parser_state option" where
  "run q [] = Some q"
| "run q (t # ts) = (case step q t of None \<Rightarrow> None | Some q' \<Rightarrow> run q' ts)"

text \<open>
  \<^verbatim>\<open>JSON.parse(text)\<close> without a reviver: the value of a text that is exactly one JSON
  value, and a SyntaxError for any other text.
\<close>

definition JSON_parse :: "jsstring \<Rightarrow> js_error + jsvalue" where
  "JSON_parse text =
     (case tokenize text of
        None \<Rightarrow> Inl SyntaxError
      | Some ts \<Rightarrow>
          (case run (ExpectValue []) ts of
             Some (AfterValue v []) \<Rightarrow> Inr v
           | _ \<Rightarrow> Inl SyntaxError))"

subsection \<open>The page's functions\<close>

text \<open>
  An expression either throws (\<open>Inl\<close>) or has a value (\<open>Inr\<close>). \<open>and_then\<close>
  evaluates an expression and passes its value on; an exception ends the evaluation.
\<close>

definition and_then :: "js_error + 'a \<Rightarrow> ('a \<Rightarrow> js_error + 'b) \<Rightarrow> js_error + 'b" where
  "and_then r f = (case r of Inl e \<Rightarrow> Inl e | Inr v \<Rightarrow> f v)"

text \<open>\<^verbatim>\<open>a && b\<close> on booleans: \<open>b\<close> is evaluated only when \<open>a\<close> is true.\<close>

definition and_also :: "js_error + bool \<Rightarrow> js_error + bool \<Rightarrow> js_error + bool" where
  "and_also a b = (case a of Inl e \<Rightarrow> Inl e | Inr x \<Rightarrow> if x then b else Inr False)"

text \<open>
  \<^verbatim>\<open>containsReportData(parsed)\<close>, a conjunction that stops at its first false operand:
  \<^verbatim>\<open>
  typeof parsed === "object" && parsed !== null &&
  typeof parsed.sender === "string" &&
  Number.isInteger(parsed.received_at) &&
  Array.isArray(parsed.trackers) &&
  parsed.trackers.every((tracker: unknown) => typeof tracker === "string")
  \<close>
\<close>

definition containsReportData :: "jsvalue \<Rightarrow> js_error + bool" where
  "containsReportData parsed =
     and_also (Inr (typeof parsed = Type_object))
    (and_also (Inr (parsed \<noteq> JNull))
    (and_also (and_then (Get parsed (ascii ''sender'')) (\<lambda>sender. Inr (typeof sender = Type_string)))
    (and_also (and_then (Get parsed (ascii ''received_at'')) (\<lambda>received_at. Inr (Number_isInteger received_at)))
    (and_also (and_then (Get parsed (ascii ''trackers'')) (\<lambda>trackers. Inr (Array_isArray trackers)))
              (and_then (Get parsed (ascii ''trackers''))
                 (\<lambda>trackers. every trackers (\<lambda>tracker. typeof tracker = Type_string)))))))"

text \<open>
  The body of the \<^verbatim>\<open>try\<close> block of \<^verbatim>\<open>parseHash(hash)\<close>: an exception is \<open>Inl\<close>, a
  returned value \<open>Inr\<close>.
  \<^verbatim>\<open>
  const data: unknown = JSON.parse(decodeURIComponent(hash.substring(1)));
  if (!containsReportData(data)) { return null; }
  return { sender: data.sender, received_at: data.received_at, trackers: data.trackers };
  \<close>
\<close>

definition parseHash_try :: "jsstring \<Rightarrow> js_error + jsvalue" where
  "parseHash_try hash =
     and_then (decodeURIComponent (substring hash 1)) (\<lambda>text.
     and_then (JSON_parse text) (\<lambda>data.
     and_then (containsReportData data) (\<lambda>is_report.
       if \<not> is_report then Inr JNull
       else
         and_then (Get data (ascii ''sender'')) (\<lambda>sender.
         and_then (Get data (ascii ''received_at'')) (\<lambda>received_at.
         and_then (Get data (ascii ''trackers'')) (\<lambda>trackers.
           Inr (JObject
             [(ascii ''sender'', sender),
              (ascii ''received_at'', received_at),
              (ascii ''trackers'', trackers)])))))))"

text \<open>\<^verbatim>\<open>parseHash(hash)\<close>: the \<^verbatim>\<open>catch\<close> clause turns every exception into \<^verbatim>\<open>null\<close>.\<close>

definition parseHash :: "jsstring \<Rightarrow> jsvalue" where
  "parseHash hash = (case parseHash_try hash of Inl e \<Rightarrow> JNull | Inr v \<Rightarrow> v)"

text \<open>
  The type of a report, and the object that \<^verbatim>\<open>parseHash\<close> returns for it:
  \<^verbatim>\<open>
  type ReportData = { sender: string; received_at: number; trackers: string[]; };
  \<close>
\<close>

record ReportData =
  sender :: jsstring
  received_at :: jsnumber
  trackers :: "jsstring list"

definition ReportData_object :: "ReportData \<Rightarrow> jsvalue" where
  "ReportData_object r =
     JObject [(ascii ''sender'', JString (sender r)),
              (ascii ''received_at'', JNumber (received_at r)),
              (ascii ''trackers'', JArray (map JString (trackers r)))]"

subsection \<open>The wire format\<close>

text \<open>
  The page reads report links; the code that writes them is not part of it. The
  specification gives the wire format, a JSON object with the members \<^verbatim>\<open>sender\<close>,
  \<^verbatim>\<open>received_at\<close> and \<^verbatim>\<open>trackers\<close> placed after the \<^verbatim>\<open>#\<close>, and the comment
  above \<^verbatim>\<open>ReportData\<close> builds such a link with \<^verbatim>\<open>JSON.stringify\<close>. The encoder
  below follows both.
\<close>

text \<open>
  Modelled from the spec: the hexadecimal digit, in lower case, that \<^verbatim>\<open>JSON.stringify\<close>
  writes in a \<^verbatim>\<open>\u\<close> escape (the writer of links is missing from the sources).
\<close>

definition hex_char :: "nat \<Rightarrow> code_unit" where
  "hex_char d = (if d < 10 then of_nat (48 + d) else of_nat (87 + d))"

text \<open>
  Modelled from the spec: UnicodeEscape of \<^verbatim>\<open>JSON.stringify\<close>, \<^verbatim>\<open>\u\<close> and four
  hexadecimal digits (the writer of links is missing from the sources).
\<close>

definition UnicodeEscape :: "code_unit \<Rightarrow> jsstring" where
  "UnicodeEscape c =
     [0x5C, 0x75, hex_char (unat c div 4096), hex_char (unat c div 256 mod 16),
      hex_char (unat c div 16 mod 16), hex_char (unat c mod 16)]"

text \<open>
  Modelled from the spec: the two halves of a surrogate pair, which \<^verbatim>\<open>JSON.stringify\<close>
  tells apart from lone surrogates (the writer of links is missing from the sources).
\<close>

definition is_leading_surrogate :: "code_unit \<Rightarrow> bool" where
  "is_leading_surrogate c = (0xD800 \<le> unat c \<and> unat c \<le> 0xDBFF)"

definition is_trailing_surrogate :: "code_unit \<Rightarrow> bool" where
  "is_trailing_surrogate c = (0xDC00 \<le> unat c \<and> unat c \<le> 0xDFFF)"

text \<open>
  Modelled from the spec: the characters of a string as QuoteJSONString of
  \<^verbatim>\<open>JSON.stringify\<close> writes them (the writer of links is missing from the sources).
  Backspace, tab, line feed, form feed, carriage return, the quote and the backslash
  have a two-character escape; any other control character and a surrogate that is not
  part of a pair are written as \<^verbatim>\<open>\u\<close> escapes; every other character stands for
  itself.
\<close>

fun quote_units :: "jsstring \<Rightarrow> jsstring" where
  "quote_units [] = []"
| "quote_units (c # s) =
     (if c = 0x08 then [0x5C, 0x62] @ quote_units s
      else if c = 0x09 then [0x5C, 0x74] @ quote_units s
      else if c = 0x0A then [0x5C, 0x6E] @ quote_units s
      else if c = 0x0C then [0x5C, 0x66] @ quote_units s
      else if c = 0x0D then [0x5C, 0x72] @ quote_units s
      else if c = 0x22 then [0x5C, 0x22] @ quote_units s
      else if c = 0x5C then [0x5C, 0x5C] @ quote_units s
      else if unat c < 0x20 then UnicodeEscape c @ quote_units s
      else if is_leading_surrogate c then
        (case s of
           [] \<Rightarrow> UnicodeEscape c
         | d # s' \<Rightarrow>
             if is_trailing_surrogate d then c # d # quote_units s'
             else UnicodeEscape c @ quote_units s)
      else if is_trailing_surrogate c then UnicodeEscape c @ quote_units s
      else c # quote_units s)"

text \<open>
  Modelled from the spec: QuoteJSONString, the escaped characters between two quotes
  (the writer of links is missing from the sources).
\<close>

definition QuoteJSONString :: "jsstring \<Rightarrow> jsstring" where
  "QuoteJSONString s = [0x22] @ quote_units s @ [0x22]"

text \<open>
  Modelled from the spec: the decimal digits of a natural number, without leading zeros
  (the writer of links is missing from the sources).
\<close>

function decimal_digits :: "nat \<Rightarrow> jsstring" where
  "decimal_digits n =
     (if n < 10 then [of_nat (48 + n)] else decimal_digits (n div 10) @ [of_nat (48 + n mod 10)])"
  by pat_completeness auto
termination
  by (relation "measure id") auto

declare decimal_digits.simps [simp del]

text \<open>
  Modelled from the spec: the text of the integer \<^verbatim>\<open>received_at\<close>, a minus sign before
  the digits of a negative one (the writer of links is missing from the sources).
\<close>

definition integer_text :: "int \<Rightarrow> jsstring" where
  "integer_text T = (if T < 0 then [0x2D] @ decimal_digits (nat (- T)) else decimal_digits (nat T))"

text \<open>
  Modelled from the spec: the elements of the \<^verbatim>\<open>trackers\<close> array, quoted and separated
  by commas (the writer of links is missing from the sources).
\<close>

fun array_elements :: "jsstring list \<Rightarrow> jsstring" where
  "array_elements [] = []"
| "array_elements [t] = QuoteJSONString t"
| "array_elements (t # ts) = QuoteJSONString t @ [0x2C] @ array_elements ts"

text \<open>
  Modelled from the spec: the JSON text of a report with sender \<open>S\<close>, time \<open>T\<close> and
  trackers \<open>ts\<close>, its members in the order of the wire format and without white space
  (the writer of links is missing from the sources).
\<close>

definition stringify_report :: "jsstring \<Rightarrow> int \<Rightarrow> jsstring list \<Rightarrow> jsstring" where
  \<open>stringify_report S T ts =
     ascii ''{"sender":'' @ QuoteJSONString S
     @ ascii '',"received_at":'' @ integer_text T
     @ ascii '',"trackers":['' @ array_elements ts @ ascii '']}''\<close>

text \<open>
  Modelled from the spec: the fragment of a report link, the JSON text of the report
  after the delimiter \<^verbatim>\<open>#\<close> (the writer of links is missing from the sources).
\<close>

definition encode_report :: "jsstring \<Rightarrow> int \<Rightarrow> jsstring list \<Rightarrow> jsstring" where
  "encode_report S T ts = [0x23] @ stringify_report S T ts"

subsection \<open>JSON texts\<close>

text \<open>
  The JSON texts that the claims speak of as the decoded body of a fragment, by their
  structure: the three literal names, an integer written in decimal, a string, an
  array of such values and an object of named members. A member name may occur more
  than once.
\<close>

datatype json_document =
    Null_literal
  | True_literal
  | False_literal
  | Integer_literal int
  | String_literal jsstring
  | Array_literal "json_document list"
  | Object_literal "(jsstring \<times> json_document) list"

text \<open>The six structural characters, strings, integers and literal names of such a text.\<close>

datatype lexeme =
    Begin_object | End_object | Begin_array | End_array | Name_separator | Value_separator
  | String_lexeme jsstring
  | Integer_lexeme int
  | True_lexeme | False_lexeme | Null_lexeme

text \<open>The lexemes of several values or members, a comma between each two.\<close>

fun separate :: "lexeme list list \<Rightarrow> lexeme list" where
  "separate [] = []"
| "separate [x] = x"
| "separate (x # y # xs) = x @ Value_separator # separate (y # xs)"

text \<open>The lexemes of a document, in the order in which they are written.\<close>

fun document_lexemes :: "json_document \<Rightarrow> lexeme list" where
  "document_lexemes Null_literal = [Null_lexeme]"
| "document_lexemes True_literal = [True_lexeme]"
| "document_lexemes False_literal = [False_lexeme]"
| "document_lexemes (Integer_literal n) = [Integer_lexeme n]"
| "document_lexemes (String_literal s) = [String_lexeme s]"
| "document_lexemes (Array_literal ds) =
     Begin_array # separate (map document_lexemes ds) @ [End_array]"
| "document_lexemes (Object_literal ms) =
     Begin_object
     # separate (map (\<lambda>m. String_lexeme (fst m) # Name_separator # document_lexemes (snd m)) ms)
     @ [End_object]"

text \<open>
  The Number that \<^verbatim>\<open>JSON.parse\<close> gives to an integer written in decimal: the Number
  value of its digits, negated after a minus sign.
\<close>

definition Number_of_integer :: "int \<Rightarrow> jsnumber" where
  "Number_of_integer n =
     (if n < 0 then negate (Number_of_decimal (nat (- n)) 0) else Number_of_decimal (nat n) 0)"

text \<open>
  How a lexeme is written: a string as QuoteJSONString writes it, an integer as its
  decimal digits.
\<close>

fun lexeme_text :: "lexeme \<Rightarrow> jsstring" where
  "lexeme_text Begin_object = [0x7B]"
| "lexeme_text End_object = [0x7D]"
| "lexeme_text Begin_array = [0x5B]"
| "lexeme_text End_array = [0x5D]"
| "lexeme_text Name_separator = [0x3A]"
| "lexeme_text Value_separator = [0x2C]"
| "lexeme_text (String_lexeme s) = QuoteJSONString s"
| "lexeme_text (Integer_lexeme n) = integer_text n"
| "lexeme_text True_lexeme = ascii ''true''"
| "lexeme_text False_lexeme = ascii ''false''"
| "lexeme_text Null_lexeme = ascii ''null''"

text \<open>The token that \<open>tokenize\<close> is to give for a lexeme.\<close>

fun lexeme_token :: "lexeme \<Rightarrow> token" where
  "lexeme_token Begin_object = LBrace"
| "lexeme_token End_object = RBrace"
| "lexeme_token Begin_array = LBracket"
| "lexeme_token End_array = RBracket"
| "lexeme_token Name_separator = Colon"
| "lexeme_token Value_separator = Comma"
| "lexeme_token (String_lexeme s) = StringToken s"
| "lexeme_token (Integer_lexeme n) = NumberToken (Number_of_integer n)"
| "lexeme_token True_lexeme = TrueToken"
| "lexeme_token False_lexeme = FalseToken"
| "lexeme_token Null_lexeme = NullToken"

text \<open>
  A text of the lexemes \<open>ls\<close>: before each lexeme the white space that the list \<open>ws\<close>
  has at its position, after the last lexeme the white space at the next position, and
  none where \<open>ws\<close> has ended.
\<close>

fun render :: "jsstring list \<Rightarrow> lexeme list \<Rightarrow> jsstring" where
  "render [] [] = []"
| "render (w # ws) [] = w"
| "render [] (l # ls) = lexeme_text l @ render [] ls"
| "render (w # ws) (l # ls) = w @ lexeme_text l @ render ws ls"

text \<open>
  The value that a document denotes. The members of an object are defined in their
  order, so that the last member of a name gives its value.
\<close>

fun document_value :: "json_document \<Rightarrow> jsvalue" where
  "document_value Null_literal = JNull"
| "document_value True_literal = JBoolean True"
| "document_value False_literal = JBoolean False"
| "document_value (Integer_literal n) = JNumber (Number_of_integer n)"
| "document_value (String_literal s) = JString s"
| "document_value (Array_literal ds) = JArray (map document_value ds)"
| "document_value (Object_literal ms) =
     JObject (foldl (\<lambda>members m. define_property members (fst m) (document_value (snd m))) [] ms)"

text \<open>No two integers follow one another; in the lexemes of a document none do.\<close>

fun is_integer_lexeme :: "lexeme \<Rightarrow> bool" where
  "is_integer_lexeme (Integer_lexeme n) = True"
| "is_integer_lexeme l = False"

fun separated :: "lexeme list \<Rightarrow> bool" where
  "separated [] = True"
| "separated [l] = True"
| "separated (l # l' # ls) = (\<not> (is_integer_lexeme l \<and> is_integer_lexeme l') \<and> separated (l' # ls))"

text \<open>A text at which a number ends: it is empty, or starts with no digit, point or exponent mark.\<close>

definition ends_number :: "jsstring \<Rightarrow> bool" where
  "ends_number rest =
     (case rest of [] \<Rightarrow> True | c # r \<Rightarrow> \<not> is_digit c \<and> c \<noteq> 0x2E \<and> c \<noteq> 0x65 \<and> c \<noteq> 0x45)"

subsection \<open>Auxiliary notions\<close>

text \<open>
  A natural number that a double represents exactly: below \<open>2\<^sup>1\<^sup>0\<^sup>2\<^sup>4\<close>, and with at
  most 53 significant bits.
\<close>

definition exact_double :: "nat \<Rightarrow> bool" where
  "exact_double n = (n < 2 ^ 1024 \<and> (floorlog 2 n \<le> 53 \<or> 2 ^ (floorlog 2 n - 53) dvd n))"

text \<open>The tokens of the elements of an array of strings, commas between them.\<close>

fun element_tokens :: "jsstring list \<Rightarrow> token list" where
  "element_tokens [] = []"
| "element_tokens [t] = [StringToken t]"
| "element_tokens (t # ts) = StringToken t # Comma # element_tokens ts"

text \<open>The tokens \<open>xs\<close> before the tokens of the rest, when the rest has tokens.\<close>

definition add_tokens :: "token list \<Rightarrow> token list option \<Rightarrow> token list option" where
  "add_tokens xs res = (case res of None \<Rightarrow> None | Some ts \<Rightarrow> Some (xs @ ts))"

section \<open>Properties of the platform functions\<close>

subsection \<open>Numbers\<close>

lemma round_half_even_exact: "0 < b \<Longrightarrow> round_half_even (m * b) b = m"
  by (simp add: round_half_even_def)

lemma floor_log2_nat:
  assumes "0 < n"
  shows "floor_log2 n 1 = int (floorlog 2 n) - 1"
proof -
  have one: "floorlog 2 (1::nat) = 1"
    by (simp add: floorlog_def)
  from assms have bounds: "2 ^ (floorlog 2 n - 1) \<le> n" and pos: "0 < floorlog 2 n"
    using floorlog_bounds [of n 2] by (auto simp: floorlog_def)
  from pos have d: "nat (int (floorlog 2 n) - 1) = floorlog 2 n - 1" by simp
  from pos have "0 \<le> int (floorlog 2 n) - 1" by simp
  with bounds show ?thesis
    unfolding floor_log2_def Let_def one by (simp del: One_nat_def add: d)
qed

lemma Number_value_nat:
  assumes "0 < n"
  shows "Number_value n 1 =
     (if 53 \<le> floorlog 2 n
      then (if 2 ^ 1024 \<le> round_half_even n (2 ^ (floorlog 2 n - 53)) * 2 ^ (floorlog 2 n - 53)
            then PosInfinity
            else Finite (of_nat (round_half_even n (2 ^ (floorlog 2 n - 53)) * 2 ^ (floorlog 2 n - 53))))
      else Finite (of_nat (round_half_even (n * 2 ^ (53 - floorlog 2 n)) 1) / of_nat (2 ^ (53 - floorlog 2 n))))"
proof -
  define k where "k = floorlog 2 n"
  have p: "max (floor_log2 n 1 - 52) (- 1074) = int k - 53"
    using assms by (simp del: One_nat_def add: floor_log2_nat k_def)
  show ?thesis
  proof (cases "53 \<le> k")
    case True
    then have "0 \<le> int k - 53" "nat (int k - 53) = k - 53" by auto
    with True assms show ?thesis
      unfolding Number_value_def Let_def p scale2_def k_def [symmetric] by simp
  next
    case False
    then have "\<not> 0 \<le> int k - 53" "nat (- (int k - 53)) = 53 - k" by auto
    with False assms show ?thesis
      unfolding Number_value_def Let_def p scale2_def k_def [symmetric] by simp
  qed
qed

lemma Number_value_exact:
  assumes "exact_double n"
  shows "Number_value n 1 = Finite (of_nat n)"
proof (cases "n = 0")
  case True
  then show ?thesis by (simp add: Number_value_def)
next
  case False
  define k where "k = floorlog 2 n"
  from assms have small: "\<not> 2 ^ 1024 \<le> n" by (simp add: exact_double_def)
  show ?thesis
  proof (cases "53 \<le> k")
    case True
    have "2 ^ (k - 53) dvd n"
    proof (cases "k = 53")
      case True
      then show ?thesis by simp
    next
      case False
      with True assms show ?thesis by (simp add: exact_double_def k_def)
    qed
    then obtain m where m: "m * 2 ^ (k - 53) = n" by (auto simp: dvd_def mult.commute)
    have "round_half_even (m * 2 ^ (k - 53)) (2 ^ (k - 53)) = m"
      by (rule round_half_even_exact) simp
    then have r: "round_half_even n (2 ^ (k - 53)) * 2 ^ (k - 53) = n"
      unfolding m by (simp add: m)
    from False True small show ?thesis
      unfolding Number_value_nat [of n, OF False [THEN neq0_conv [THEN iffD1]]] k_def [symmetric] r
      by simp
  next
    case k: False
    have r: "round_half_even (n * 2 ^ (53 - k)) 1 = n * 2 ^ (53 - k)"
      using round_half_even_exact [of 1 "n * 2 ^ (53 - k)"] by simp
    from False k show ?thesis
      unfolding Number_value_nat [of n, OF False [THEN neq0_conv [THEN iffD1]]] k_def [symmetric] r
      by simp
  qed
qed

lemma exact_double_small: "n \<le> 2 ^ 53 \<Longrightarrow> exact_double n"
proof -
  assume n: "n \<le> 2 ^ 53"
  have "(2::nat) ^ 53 < 2 ^ 1024" by simp
  with n have lt: "n < 2 ^ 1024" by linarith
  show ?thesis
  proof (cases "n = 2 ^ 53")
    case True
    have "n < 2 ^ 54" unfolding True by simp
    then have "floorlog 2 n \<le> 54" by (simp add: floorlog_le_iff)
    then have "floorlog 2 n - 53 \<le> 53" by simp
    then have "(2::nat) ^ (floorlog 2 n - 53) dvd 2 ^ 53" by (rule le_imp_power_dvd)
    with lt True show ?thesis by (simp add: exact_double_def)
  next
    case False
    with n have "n < 2 ^ 53" by simp
    then have "floorlog 2 n \<le> 53"
      by (simp add: floorlog_le_iff)
    with lt show ?thesis by (simp add: exact_double_def)
  qed
qed

subsection \<open>Strings\<close>

lemma unat_of_nat16: "n < 65536 \<Longrightarrow> unat (of_nat n :: code_unit) = n"
  by (simp add: unat_of_nat)

lemma unat_hex_char: "d < 16 \<Longrightarrow> unat (hex_char d) = (if d < 10 then 48 + d else 87 + d)"
  unfolding hex_char_def using unat_of_nat16 [of "48 + d"] unat_of_nat16 [of "87 + d"]
  by (simp del: of_nat_add)

lemma hex_digit_hex_char: "d < 16 \<Longrightarrow> hex_digit (hex_char d) = Some d"
  by (simp add: hex_digit_def unat_hex_char)

lemma hex_value_digits:
  "((n div 4096 * 16 + n div 256 mod 16) * 16 + n div 16 mod 16) * 16 + n mod 16 = (n::nat)"
proof -
  have e1: "n div 4096 = n div 256 div 16" and e2: "n div 256 = n div 16 div 16"
    by (simp_all add: div_mult2_eq [symmetric])
  have "n div 256 div 16 * 16 + n div 256 mod 16 = n div 256"
    by (rule div_mult_mod_eq)
  then have s1: "n div 4096 * 16 + n div 256 mod 16 = n div 256"
    by (simp only: e1)
  have "n div 16 div 16 * 16 + n div 16 mod 16 = n div 16"
    by (rule div_mult_mod_eq)
  then have s2: "n div 256 * 16 + n div 16 mod 16 = n div 16"
    by (simp only: e2)
  have s3: "n div 16 * 16 + n mod 16 = n"
    by (rule div_mult_mod_eq)
  show ?thesis by (simp only: s1 s2 s3)
qed

lemma hex4_UnicodeEscape: "hex4 (drop 2 (UnicodeEscape c) @ rest) = Some (c, rest)"
proof -
  have lt: "unat c < 65536" using unsigned_less [of c, where ?'a = nat] by simp
  then have d: "unat c div 4096 < 16" by simp
  have "(of_nat (((unat c div 4096 * 16 + unat c div 256 mod 16) * 16 + unat c div 16 mod 16) * 16 + unat c mod 16) :: code_unit) = c"
    by (simp only: hex_value_digits) simp
  with d show ?thesis
    by (simp add: UnicodeEscape_def hex_digit_hex_char del: of_nat_add of_nat_mult)
qed

lemma scan_string_UnicodeEscape:
  "scan_string (UnicodeEscape c @ rest) = add_unit c (scan_string rest)"
proof -
  have "UnicodeEscape c = 0x5C # 0x75 # drop 2 (UnicodeEscape c)"
    by (simp add: UnicodeEscape_def)
  then have "scan_string (UnicodeEscape c @ rest) = scan_string (0x5C # 0x75 # (drop 2 (UnicodeEscape c) @ rest))"
    by (metis append_Cons)
  also have "\<dots> = add_unit c (scan_string rest)"
    by (simp add: hex4_UnicodeEscape)
  finally show ?thesis .
qed

lemma quote_units_control:
  assumes "\<not> (c = 0x08 \<or> c = 0x09 \<or> c = 0x0A \<or> c = 0x0C \<or> c = 0x0D \<or> c = 0x22 \<or> c = 0x5C)"
    and "unat c < 0x20"
  shows "quote_units (c # s) = UnicodeEscape c @ quote_units s"
  using assms by simp

lemma quote_units_pair:
  assumes "is_leading_surrogate c" "is_trailing_surrogate d"
  shows "quote_units (c # d # s) = c # d # quote_units s"
proof -
  from assms(1) have "55296 \<le> unat c" by (simp add: is_leading_surrogate_def)
  then have "\<not> unat c < 0x20" "c \<noteq> 0x08" "c \<noteq> 0x09" "c \<noteq> 0x0A" "c \<noteq> 0x0C" "c \<noteq> 0x0D" "c \<noteq> 0x22" "c \<noteq> 0x5C"
    by auto
  with assms show ?thesis by simp
qed

lemma quote_units_lone_leading:
  assumes "is_leading_surrogate c" "s = [] \<or> \<not> is_trailing_surrogate (hd s)"
  shows "quote_units (c # s) = UnicodeEscape c @ quote_units s"
proof -
  from assms(1) have "55296 \<le> unat c" by (simp add: is_leading_surrogate_def)
  then have "\<not> unat c < 0x20" "c \<noteq> 0x08" "c \<noteq> 0x09" "c \<noteq> 0x0A" "c \<noteq> 0x0C" "c \<noteq> 0x0D" "c \<noteq> 0x22" "c \<noteq> 0x5C"
    by auto
  with assms show ?thesis by (cases s) simp_all
qed

lemma quote_units_trailing:
  assumes "\<not> is_leading_surrogate c" "is_trailing_surrogate c"
  shows "quote_units (c # s) = UnicodeEscape c @ quote_units s"
proof -
  from assms(2) have "55296 \<le> unat c" by (simp add: is_trailing_surrogate_def)
  then have "\<not> unat c < 0x20" "c \<noteq> 0x08" "c \<noteq> 0x09" "c \<noteq> 0x0A" "c \<noteq> 0x0C" "c \<noteq> 0x0D" "c \<noteq> 0x22" "c \<noteq> 0x5C"
    by auto
  with assms show ?thesis by simp
qed

lemma quote_units_plain:
  assumes "\<not> (c = 0x08 \<or> c = 0x09 \<or> c = 0x0A \<or> c = 0x0C \<or> c = 0x0D \<or> c = 0x22 \<or> c = 0x5C)"
    and "\<not> unat c < 0x20" "\<not> is_leading_surrogate c" "\<not> is_trailing_surrogate c"
  shows "quote_units (c # s) = c # quote_units s"
  using assms by simp

lemma surrogate_not_special:
  assumes "is_leading_surrogate c \<or> is_trailing_surrogate c"
  shows "c \<noteq> 0x22" "c \<noteq> 0x5C" "\<not> unat c < 0x20"
proof -
  from assms have "55296 \<le> unat c"
    by (auto simp: is_leading_surrogate_def is_trailing_surrogate_def)
  then show "c \<noteq> 0x22" "c \<noteq> 0x5C" "\<not> unat c < 0x20" by auto
qed

lemma scan_string_plain:
  assumes "c \<noteq> 0x22" "c \<noteq> 0x5C" "\<not> unat c < 0x20" and "scan_string r = Some (s, rest)"
  shows "scan_string (c # r) = Some (c # s, rest)"
  using assms by (simp add: add_unit_def)

lemma scan_string_escaped:
  assumes "c = 0x08 \<or> c = 0x09 \<or> c = 0x0A \<or> c = 0x0C \<or> c = 0x0D \<or> c = 0x22 \<or> c = 0x5C"
    and "scan_string (quote_units s @ 0x22 # rest) = Some (s, rest)"
  shows "scan_string (quote_units (c # s) @ 0x22 # rest) = Some (c # s, rest)"
  using assms by (elim disjE) (simp_all add: add_unit_def escape_char_def)

lemma scan_string_unicode:
  assumes "quote_units (c # s) = UnicodeEscape c @ quote_units s"
    and "scan_string (quote_units s @ 0x22 # rest) = Some (s, rest)"
  shows "scan_string (quote_units (c # s) @ 0x22 # rest) = Some (c # s, rest)"
  unfolding assms(1) append_assoc scan_string_UnicodeEscape assms(2)
  by (simp add: add_unit_def)

lemma scan_string_quote_units:
  "scan_string (quote_units s @ 0x22 # rest) = Some (s, rest)"
proof (induction "length s" arbitrary: s rule: less_induct)
  case less
  show ?case
  proof (cases s)
    case Nil
    then show ?thesis by simp
  next
    case (Cons c s')
    from less Cons have IH: "scan_string (quote_units s' @ 0x22 # rest) = Some (s', rest)"
      by simp
    show ?thesis
    proof (cases "c = 0x08 \<or> c = 0x09 \<or> c = 0x0A \<or> c = 0x0C \<or> c = 0x0D \<or> c = 0x22 \<or> c = 0x5C")
      case True
      then show ?thesis unfolding Cons using IH by (rule scan_string_escaped)
    next
      case special: False
      show ?thesis
      proof (cases "unat c < 0x20")
        case True
        with special have "quote_units (c # s') = UnicodeEscape c @ quote_units s'"
          by (rule quote_units_control)
        then show ?thesis unfolding Cons using IH by (rule scan_string_unicode)
      next
        case printable: False
        show ?thesis
        proof (cases "is_leading_surrogate c")
          case leading: True
          show ?thesis
          proof (cases "s' = [] \<or> \<not> is_trailing_surrogate (hd s')")
            case True
            with leading have "quote_units (c # s') = UnicodeEscape c @ quote_units s'"
              by (rule quote_units_lone_leading)
            then show ?thesis unfolding Cons using IH by (rule scan_string_unicode)
          next
            case False
            then obtain d s'' where s': "s' = d # s''" and d: "is_trailing_surrogate d"
              by (cases s') auto
            from less Cons s' have IH': "scan_string (quote_units s'' @ 0x22 # rest) = Some (s'', rest)"
              by simp
            from d have dn: "d \<noteq> 0x22" "d \<noteq> 0x5C" "\<not> unat d < 0x20"
              by (simp_all add: surrogate_not_special)
            from leading have cn: "c \<noteq> 0x22" "c \<noteq> 0x5C" "\<not> unat c < 0x20"
              by (simp_all add: surrogate_not_special)
            have "scan_string (c # d # quote_units s'' @ 0x22 # rest) = Some (c # d # s'', rest)"
              by (rule scan_string_plain [OF cn scan_string_plain [OF dn IH']])
            with leading d show ?thesis
              unfolding Cons s' by (simp only: quote_units_pair append_Cons)
          qed
        next
          case not_leading: False
          show ?thesis
          proof (cases "is_trailing_surrogate c")
            case True
            with not_leading have "quote_units (c # s') = UnicodeEscape c @ quote_units s'"
              by (rule quote_units_trailing)
            then show ?thesis unfolding Cons using IH by (rule scan_string_unicode)
          next
            case False
            with special printable not_leading
            have q: "quote_units (c # s') = c # quote_units s'"
              by (rule quote_units_plain)
            from special have "c \<noteq> 0x22" "c \<noteq> 0x5C" by auto
            with printable IH have "scan_string (c # quote_units s' @ 0x22 # rest) = Some (c # s', rest)"
              by (intro scan_string_plain) auto
            then show ?thesis unfolding Cons q by simp
          qed
        qed
      qed
    qed
  qed
qed

subsection \<open>Integers in decimal\<close>

lemma digit_unit: "d < 10 \<Longrightarrow> unat (of_nat (48 + d) :: code_unit) = 48 + d"
  by (rule unat_of_nat16) simp

lemma is_digit_decimal_digits: "c \<in> set (decimal_digits n) \<Longrightarrow> is_digit c"
proof (induction n rule: decimal_digits.induct)
  case (1 n)
  show ?case
  proof (cases "n < 10")
    case True
    with "1.prems" have "c = of_nat (48 + n)"
      by (simp add: decimal_digits.simps [of n] del: of_nat_add)
    with True digit_unit [of n] show ?thesis
      by (simp add: is_digit_def del: of_nat_add)
  next
    case False
    with "1.prems" have "c \<in> set (decimal_digits (n div 10)) \<or> c = of_nat (48 + n mod 10)"
      by (auto simp: decimal_digits.simps [of n] simp del: of_nat_add)
    with False "1.IH" digit_unit [of "n mod 10"] show ?thesis
      by (auto simp: is_digit_def simp del: of_nat_add)
  qed
qed

lemma decimal_digits_not_empty: "decimal_digits n \<noteq> []"
  by (subst decimal_digits.simps) simp

lemma hd_decimal_digits: "0 < n \<Longrightarrow> hd (decimal_digits n) \<noteq> 0x30"
proof (induction n rule: decimal_digits.induct)
  case (1 n)
  show ?case
  proof (cases "n < 10")
    case True
    have "unat (hd (decimal_digits n)) = 48 + n"
      using True digit_unit [of n] by (simp add: decimal_digits.simps [of n] del: of_nat_add)
    with "1.prems" show ?thesis by auto
  next
    case False
    then have "hd (decimal_digits n) = hd (decimal_digits (n div 10))"
      using decimal_digits_not_empty [of "n div 10"]
      by (simp add: decimal_digits.simps [of n] del: of_nat_add)
    with False "1.IH" show ?thesis by simp
  qed
qed

lemma digits_value_snoc: "digits_value (ds @ [c]) = 10 * digits_value ds + (unat c - 48)"
  by (simp add: digits_value_def)

lemma digits_value_decimal_digits: "digits_value (decimal_digits n) = n"
proof (induction n rule: decimal_digits.induct)
  case (1 n)
  show ?case
  proof (cases "n < 10")
    case True
    with digit_unit [of n] show ?thesis
      by (simp add: decimal_digits.simps [of n] digits_value_def del: of_nat_add)
  next
    case False
    with "1.IH" digit_unit [of "n mod 10"] show ?thesis
      by (simp add: decimal_digits.simps [of n] digits_value_snoc del: of_nat_add)
  qed
qed

lemma not_digit_comma: "\<not> is_digit 0x2C"
  by (simp add: is_digit_def)

lemma takeWhile_decimal_digits:
  "takeWhile is_digit (decimal_digits n @ 0x2C # r) = decimal_digits n"
  "dropWhile is_digit (decimal_digits n @ 0x2C # r) = 0x2C # r"
  using is_digit_decimal_digits [of _ n]
  by (simp_all add: takeWhile_append2 dropWhile_append2 not_digit_comma)

lemma scan_int_decimal_digits:
  "scan_int (decimal_digits n @ 0x2C # r) = Some (decimal_digits n, 0x2C # r)"
proof (cases "n = 0")
  case True
  then show ?thesis
    by (simp add: decimal_digits.simps [of 0] scan_int_def)
next
  case False
  obtain c ds where ds: "decimal_digits n = c # ds"
    using decimal_digits_not_empty [of n] by (cases "decimal_digits n") auto
  with False hd_decimal_digits [of n] is_digit_decimal_digits [of c n]
  have "c \<noteq> 0x30" "is_digit c" by auto
  then have "scan_int ((c # ds) @ 0x2C # r)
      = Some (takeWhile is_digit ((c # ds) @ 0x2C # r), dropWhile is_digit ((c # ds) @ 0x2C # r))"
    by (simp add: scan_int_def)
  then show ?thesis
    unfolding ds [symmetric] takeWhile_decimal_digits .
qed

lemma scan_number_unsigned:
  assumes "scan_int (c # s) = Some (ip, 0x2C # r)" "c \<noteq> 0x2D"
  shows "scan_number (c # s) = Some (Number_of_decimal (digits_value ip) 0, 0x2C # r)"
  using assms by (simp add: scan_number_def scan_frac_def scan_exp_def)

lemma scan_number_signed:
  assumes "scan_int s = Some (ip, 0x2C # r)"
  shows "scan_number (0x2D # s) = Some (negate (Number_of_decimal (digits_value ip) 0), 0x2C # r)"
  using assms by (simp add: scan_number_def scan_frac_def scan_exp_def)

lemma Number_of_decimal_exact:
  "exact_double n \<Longrightarrow> Number_of_decimal n 0 = Finite (of_nat n)"
  by (simp add: Number_of_decimal_def Number_value_exact del: One_nat_def)

lemma scan_number_decimal_digits:
  assumes "exact_double n"
  shows "scan_number (decimal_digits n @ 0x2C # r) = Some (Finite (of_nat n), 0x2C # r)"
proof -
  obtain c ds where ds: "decimal_digits n = c # ds"
    using decimal_digits_not_empty [of n] by (cases "decimal_digits n") auto
  with is_digit_decimal_digits [of c n] have "is_digit c" by simp
  then have c: "c \<noteq> 0x2D" by (auto simp: is_digit_def)
  have "scan_int (c # (ds @ 0x2C # r)) = Some (decimal_digits n, 0x2C # r)"
    using scan_int_decimal_digits [of n r] unfolding ds by simp
  from scan_number_unsigned [OF this c] show ?thesis
    unfolding ds [symmetric] digits_value_decimal_digits Number_of_decimal_exact [OF assms]
    by (simp add: ds)
qed

lemma scan_number_negative:
  assumes "exact_double n" "0 < n"
  shows "scan_number (0x2D # decimal_digits n @ 0x2C # r) = Some (Finite (- of_nat n), 0x2C # r)"
  using assms(2)
  unfolding scan_number_signed [OF scan_int_decimal_digits] digits_value_decimal_digits
    Number_of_decimal_exact [OF assms(1)]
  by simp

lemma scan_number_integer_text:
  assumes "exact_double (nat \<bar>T\<bar>)"
  shows "scan_number (integer_text T @ 0x2C # r) = Some (Finite (of_int T), 0x2C # r)"
proof (cases "T < 0")
  case True
  then have enc: "integer_text T = 0x2D # decimal_digits (nat (- T))"
    by (simp add: integer_text_def)
  from True have n: "0 < nat (- T)" "- (of_nat (nat (- T)) :: rat) = of_int T" "nat \<bar>T\<bar> = nat (- T)"
    by simp_all
  from assms have "exact_double (nat (- T))" unfolding n .
  from scan_number_negative [OF this n(1), of r] show ?thesis
    unfolding enc n by simp
next
  case False
  then have enc: "integer_text T = decimal_digits (nat T)"
    by (simp add: integer_text_def)
  from False have n: "(of_nat (nat T) :: rat) = of_int T" "nat \<bar>T\<bar> = nat T"
    by simp_all
  from assms have "exact_double (nat T)" unfolding n .
  from scan_number_decimal_digits [OF this, of r] show ?thesis
    unfolding enc n .
qed

subsection \<open>Tokens and values of an encoded report\<close>

lemma add_token_add_tokens: "add_token t (add_tokens xs res) = add_tokens (t # xs) res"
  by (simp add: add_token_def add_tokens_def split: option.split)

lemma add_token_eq: "add_token t res = add_tokens [t] res"
  by (simp add: add_token_def add_tokens_def split: option.split)

lemma tokenize_QuoteJSONString:
  "tokenize (QuoteJSONString s @ rest) = add_token (StringToken s) (tokenize rest)"
proof -
  have "QuoteJSONString s @ rest = 0x22 # (quote_units s @ 0x22 # rest)"
    by (simp add: QuoteJSONString_def)
  then show ?thesis
    by (simp add: scan_string_quote_units is_whitespace_def)
qed

lemma tokenize_array_elements:
  "tokenize (array_elements ts @ 0x5D # rest) = add_tokens (element_tokens ts) (tokenize (0x5D # rest))"
proof (induction ts rule: array_elements.induct)
  case 1
  show ?case by (simp add: add_tokens_def split: option.split)
next
  case (2 t)
  show ?case
    unfolding array_elements.simps element_tokens.simps tokenize_QuoteJSONString
    by (rule add_token_eq)
next
  case (3 t v va)
  have "tokenize (array_elements (t # v # va) @ 0x5D # rest)
      = tokenize (QuoteJSONString t @ (0x2C # (array_elements (v # va) @ 0x5D # rest)))"
    by simp
  also have "\<dots> = add_token (StringToken t) (add_token Comma (tokenize (array_elements (v # va) @ 0x5D # rest)))"
    unfolding tokenize_QuoteJSONString by (simp add: is_whitespace_def)
  finally show ?case
    unfolding 3 by (simp add: add_token_add_tokens)
qed

lemma tokenize_integer_text:
  assumes "exact_double (nat \<bar>T\<bar>)"
  shows "tokenize (integer_text T @ 0x2C # r)
    = add_token (NumberToken (Finite (of_int T))) (add_token Comma (tokenize r))"
proof -
  obtain c ds where ds: "integer_text T = c # ds" and c: "c = 0x2D \<or> is_digit c"
  proof (cases "T < 0")
    case True
    then have "integer_text T = 0x2D # decimal_digits (nat (- T))"
      by (simp add: integer_text_def)
    then show ?thesis using that by blast
  next
    case False
    obtain c ds where ds: "decimal_digits (nat T) = c # ds"
      using decimal_digits_not_empty [of "nat T"] by (cases "decimal_digits (nat T)") auto
    with is_digit_decimal_digits [of c "nat T"] have "is_digit c" by simp
    with False ds show ?thesis using that by (simp add: integer_text_def)
  qed
  from c have u: "unat c = 45 \<or> (48 \<le> unat c \<and> unat c \<le> 57)"
    by (auto simp: is_digit_def)
  then have "\<not> is_whitespace c" "c \<noteq> 0x7B" "c \<noteq> 0x7D" "c \<noteq> 0x5B" "c \<noteq> 0x5D" "c \<noteq> 0x3A"
    "c \<noteq> 0x2C" "c \<noteq> 0x22"
    by (auto simp: is_whitespace_def)
  with c have "tokenize (c # (ds @ 0x2C # r)) =
     (case scan_number (c # (ds @ 0x2C # r)) of None \<Rightarrow> None
       | Some (n, r) \<Rightarrow> add_token (NumberToken n) (tokenize r))"
    by simp
  also have "c # (ds @ 0x2C # r) = integer_text T @ 0x2C # r"
    by (simp add: ds)
  finally show ?thesis
    unfolding scan_number_integer_text [OF assms] by (simp add: is_whitespace_def)
qed

lemma tokenize_stringify_report:
  assumes "exact_double (nat \<bar>T\<bar>)"
  shows "tokenize (stringify_report S T ts) =
     Some ([LBrace, StringToken (ascii ''sender''), Colon, StringToken S, Comma,
            StringToken (ascii ''received_at''), Colon, NumberToken (Finite (of_int T)), Comma,
            StringToken (ascii ''trackers''), Colon, LBracket]
           @ element_tokens ts @ [RBracket, RBrace])"
proof -
  have tail: "tokenize (ascii '']}'') = Some [RBracket, RBrace]"
    by (simp add: ascii_def is_whitespace_def add_token_def)
  have arr: "tokenize (array_elements ts @ ascii '']}'') = Some (element_tokens ts @ [RBracket, RBrace])"
    using tokenize_array_elements [of ts "ascii ''}''"] tail
    by (simp add: ascii_def add_tokens_def)
  have trackers: "tokenize (ascii ''\"trackers\":['' @ array_elements ts @ ascii '']}'')
     = Some ([StringToken (ascii ''trackers''), Colon, LBracket] @ element_tokens ts @ [RBracket, RBrace])"
    unfolding ascii_def [of "''\"trackers\":[''"] using arr
    by (simp add: is_whitespace_def add_token_def add_unit_def ascii_def [of "''trackers''"])
  have received: "tokenize (ascii ''\"received_at\":'' @ integer_text T @ ascii '',\"trackers\":['' @ array_elements ts @ ascii '']}'')
     = Some ([StringToken (ascii ''received_at''), Colon, NumberToken (Finite (of_int T)), Comma,
              StringToken (ascii ''trackers''), Colon, LBracket] @ element_tokens ts @ [RBracket, RBrace])"
  proof -
    have "ascii '',\"trackers\":['' @ array_elements ts @ ascii '']}''
        = 0x2C # (ascii ''\"trackers\":['' @ array_elements ts @ ascii '']}'')"
      by (simp add: ascii_def)
    then have "tokenize (integer_text T @ ascii '',\"trackers\":['' @ array_elements ts @ ascii '']}'')
       = Some ([NumberToken (Finite (of_int T)), Comma,
              StringToken (ascii ''trackers''), Colon, LBracket] @ element_tokens ts @ [RBracket, RBrace])"
      using tokenize_integer_text [OF assms] trackers by (simp add: add_token_def)
    then show ?thesis
      unfolding ascii_def [of "''\"received_at\":''"]
      by (simp add: is_whitespace_def add_token_def add_unit_def ascii_def [of "''received_at''"])
  qed
  have "tokenize (QuoteJSONString S @ ascii '',\"received_at\":'' @ integer_text T @ ascii '',\"trackers\":['' @ array_elements ts @ ascii '']}'')
     = Some ([StringToken S, Comma, StringToken (ascii ''received_at''), Colon, NumberToken (Finite (of_int T)), Comma,
              StringToken (ascii ''trackers''), Colon, LBracket] @ element_tokens ts @ [RBracket, RBrace])"
  proof -
    have "ascii '',\"received_at\":'' @ integer_text T @ ascii '',\"trackers\":['' @ array_elements ts @ ascii '']}''
       = 0x2C # (ascii ''\"received_at\":'' @ integer_text T @ ascii '',\"trackers\":['' @ array_elements ts @ ascii '']}'')"
      by (simp add: ascii_def)
    then show ?thesis
      unfolding tokenize_QuoteJSONString using received
      by (simp add: is_whitespace_def add_token_def)
  qed
  then show ?thesis
    unfolding stringify_report_def ascii_def [of "''{\"sender\":''"]
    by (simp add: is_whitespace_def add_token_def add_unit_def ascii_def [of "''sender''"])
qed

lemma run_elements:
  "run (ExpectValue (ArrayFrame vs # st)) (element_tokens (t # ts) @ RBracket # rest)
     = run (AfterValue (JArray (vs @ map JString (t # ts))) st) rest"
proof (induction ts arbitrary: vs t)
  case Nil
  show ?case by simp
next
  case (Cons t' ts)
  from Cons [of "vs @ [JString t]" t'] show ?case by simp
qed

lemma run_array:
  "run (ArrayStart st) (element_tokens ts @ RBracket # rest)
     = run (AfterValue (JArray (map JString ts)) st) rest"
proof (cases ts)
  case Nil
  then show ?thesis by simp
next
  case (Cons t ts')
  have "run (ArrayStart st) (element_tokens (t # ts') @ RBracket # rest)
     = run (ExpectValue (ArrayFrame [] # st)) (element_tokens (t # ts') @ RBracket # rest)"
    by (cases ts') simp_all
  then show ?thesis unfolding Cons run_elements by simp
qed

lemma keys_distinct:
  "ascii ''sender'' \<noteq> ascii ''received_at''" "ascii ''sender'' \<noteq> ascii ''trackers''"
  "ascii ''received_at'' \<noteq> ascii ''trackers''"
  by (simp_all add: ascii_def)

lemma JSON_parse_stringify_report:
  assumes "exact_double (nat \<bar>T\<bar>)"
  shows "JSON_parse (stringify_report S T ts) =
     Inr (JObject [(ascii ''sender'', JString S),
                   (ascii ''received_at'', JNumber (Finite (of_int T))),
                   (ascii ''trackers'', JArray (map JString ts))])"
proof -
  have "run (ExpectValue [])
     ([LBrace, StringToken (ascii ''sender''), Colon, StringToken S, Comma,
            StringToken (ascii ''received_at''), Colon, NumberToken (Finite (of_int T)), Comma,
            StringToken (ascii ''trackers''), Colon, LBracket]
           @ element_tokens ts @ [RBracket, RBrace])
    = run (ArrayStart [ObjectFrame [(ascii ''sender'', JString S), (ascii ''received_at'', JNumber (Finite (of_int T)))] (ascii ''trackers'')])
        (element_tokens ts @ RBracket # [RBrace])"
    using keys_distinct by (simp add: define_property_def)
  also have "\<dots> = Some (AfterValue (JObject [(ascii ''sender'', JString S),
                   (ascii ''received_at'', JNumber (Finite (of_int T))),
                   (ascii ''trackers'', JArray (map JString ts))]) [])"
    unfolding run_array using keys_distinct by (simp add: define_property_def)
  finally show ?thesis
    unfolding JSON_parse_def tokenize_stringify_report [OF assms] by simp
qed

subsection \<open>Percent signs\<close>

lemma hex_char_not_percent: "d < 16 \<Longrightarrow> hex_char d \<noteq> 0x25"
  using unat_hex_char [of d] by (auto split: if_splits)

lemma UnicodeEscape_no_percent: "0x25 \<notin> set (UnicodeEscape c)"
proof -
  have "unat c < 65536" using unsigned_less [of c, where ?'a = nat] by simp
  then have "unat c div 4096 < 16" by simp
  then show ?thesis
    by (simp add: UnicodeEscape_def hex_char_not_percent)
qed

lemma quote_units_escaped:
  assumes "c = 0x08 \<or> c = 0x09 \<or> c = 0x0A \<or> c = 0x0C \<or> c = 0x0D \<or> c = 0x22 \<or> c = 0x5C"
  shows "\<exists>e. e \<noteq> 0x25 \<and> quote_units (c # s) = 0x5C # e # quote_units s"
  using assms by (elim disjE) simp_all

lemma quote_units_no_percent:
  "0x25 \<notin> set s \<Longrightarrow> 0x25 \<notin> set (quote_units s)"
proof (induction "length s" arbitrary: s rule: less_induct)
  case less
  show ?case
  proof (cases s)
    case Nil
    then show ?thesis by simp
  next
    case (Cons c s')
    with less.prems have c: "c \<noteq> 0x25" and s': "0x25 \<notin> set s'" by auto
    from less.hyps [of s'] Cons s' have IH: "0x25 \<notin> set (quote_units s')" by simp
    have unicode: "0x25 \<notin> set (quote_units (c # s'))"
      if "quote_units (c # s') = UnicodeEscape c @ quote_units s'"
      unfolding that using IH UnicodeEscape_no_percent [of c] by simp
    show ?thesis
    proof (cases "c = 0x08 \<or> c = 0x09 \<or> c = 0x0A \<or> c = 0x0C \<or> c = 0x0D \<or> c = 0x22 \<or> c = 0x5C")
      case True
      from quote_units_escaped [OF this, of s'] obtain e
        where e: "e \<noteq> 0x25" "quote_units (c # s') = 0x5C # e # quote_units s'" by blast
      from IH e(1) show ?thesis unfolding Cons e(2) by simp
    next
      case special: False
      show ?thesis
      proof (cases "unat c < 0x20")
        case True
        with special show ?thesis unfolding Cons by (intro unicode quote_units_control)
      next
        case printable: False
        show ?thesis
        proof (cases "is_leading_surrogate c")
          case leading: True
          show ?thesis
          proof (cases "s' = [] \<or> \<not> is_trailing_surrogate (hd s')")
            case True
            with leading show ?thesis unfolding Cons by (intro unicode quote_units_lone_leading)
          next
            case False
            then obtain d s'' where d: "s' = d # s''" "is_trailing_surrogate d"
              by (cases s') auto
            with less.hyps [of s''] Cons s' have "0x25 \<notin> set (quote_units s'')" by simp
            with c s' d show ?thesis
              unfolding Cons d(1) quote_units_pair [OF leading d(2)] by simp
          qed
        next
          case not_leading: False
          show ?thesis
          proof (cases "is_trailing_surrogate c")
            case True
            with not_leading show ?thesis unfolding Cons by (intro unicode quote_units_trailing)
          next
            case False
            with special printable not_leading c IH show ?thesis
              unfolding Cons quote_units_plain [OF special printable not_leading False] by simp
          qed
        qed
      qed
    qed
  qed
qed

lemma QuoteJSONString_no_percent: "0x25 \<notin> set s \<Longrightarrow> 0x25 \<notin> set (QuoteJSONString s)"
  by (simp add: QuoteJSONString_def quote_units_no_percent)

lemma array_elements_no_percent:
  "\<forall>t \<in> set ts. 0x25 \<notin> set t \<Longrightarrow> 0x25 \<notin> set (array_elements ts)"
  by (induction ts rule: array_elements.induct) (simp_all add: QuoteJSONString_no_percent)

lemma integer_text_no_percent: "0x25 \<notin> set (integer_text T)"
proof -
  have "\<not> is_digit 0x25" by (simp add: is_digit_def)
  then have "0x25 \<notin> set (decimal_digits n)" for n
    using is_digit_decimal_digits [where c = "0x25" and n = n] by blast
  then show ?thesis by (simp add: integer_text_def)
qed

lemma stringify_report_no_percent:
  assumes "0x25 \<notin> set S" "\<forall>t \<in> set ts. 0x25 \<notin> set t"
  shows "0x25 \<notin> set (stringify_report S T ts)"
proof -
  have "0x25 \<notin> set (ascii ''{\"sender\":'')" "0x25 \<notin> set (ascii '',\"received_at\":'')"
    "0x25 \<notin> set (ascii '',\"trackers\":['')" "0x25 \<notin> set (ascii '']}'')"
    by (simp_all add: ascii_def)
  with assms show ?thesis
    unfolding stringify_report_def
    by (simp add: QuoteJSONString_no_percent array_elements_no_percent integer_text_no_percent)
qed

lemma Decode_no_percent: "0x25 \<notin> set s \<Longrightarrow> Decode s = Inr s"
  by (induction s) (auto simp: prepend_def)

lemma decode_encode_report:
  assumes "0x25 \<notin> set S" "\<forall>t \<in> set ts. 0x25 \<notin> set t"
  shows "decodeURIComponent (substring (encode_report S T ts) 1) = Inr (stringify_report S T ts)"
  using Decode_no_percent [OF stringify_report_no_percent [OF assms]]
  by (simp add: decodeURIComponent_def substring_def encode_report_def)

subsection \<open>JSON texts of documents\<close>

lemma tokenize_whitespace: "list_all is_whitespace w \<Longrightarrow> tokenize (w @ s) = tokenize s"
  by (induction w) simp_all

lemma takeWhile_digits_end:
  assumes "ends_number rest"
  shows "takeWhile is_digit (decimal_digits n @ rest) = decimal_digits n"
    and "dropWhile is_digit (decimal_digits n @ rest) = rest"
proof -
  from assms have "takeWhile is_digit rest = []" "dropWhile is_digit rest = rest"
    by (cases rest; simp add: ends_number_def)+
  then show "takeWhile is_digit (decimal_digits n @ rest) = decimal_digits n"
    and "dropWhile is_digit (decimal_digits n @ rest) = rest"
    using is_digit_decimal_digits [of _ n]
    by (simp_all add: takeWhile_append2 dropWhile_append2)
qed

lemma scan_int_digits_end:
  assumes "ends_number rest"
  shows "scan_int (decimal_digits n @ rest) = Some (decimal_digits n, rest)"
proof (cases "n = 0")
  case True
  then show ?thesis
    by (simp add: decimal_digits.simps [of 0] scan_int_def)
next
  case False
  obtain c ds where ds: "decimal_digits n = c # ds"
    using decimal_digits_not_empty [of n] by (cases "decimal_digits n") auto
  with False hd_decimal_digits [of n] is_digit_decimal_digits [of c n]
  have "c \<noteq> 0x30" "is_digit c" by auto
  then have "scan_int ((c # ds) @ rest)
      = Some (takeWhile is_digit ((c # ds) @ rest), dropWhile is_digit ((c # ds) @ rest))"
    by (simp add: scan_int_def)
  then show ?thesis
    unfolding ds [symmetric] takeWhile_digits_end [OF assms] .
qed

lemma scan_frac_end: "ends_number rest \<Longrightarrow> scan_frac rest = Some ([], rest)"
  by (cases rest) (simp_all add: ends_number_def scan_frac_def)

lemma scan_exp_end: "ends_number rest \<Longrightarrow> scan_exp rest = Some (0, rest)"
  by (cases rest) (simp_all add: ends_number_def scan_exp_def)

lemma scan_number_integer_end:
  assumes "ends_number rest"
  shows "scan_number (integer_text n @ rest) = Some (Number_of_integer n, rest)"
proof (cases "n < 0")
  case True
  then have enc: "integer_text n @ rest = 0x2D # (decimal_digits (nat (- n)) @ rest)"
    by (simp add: integer_text_def)
  show ?thesis
    unfolding enc using True
    by (simp add: scan_number_def scan_int_digits_end [OF assms] scan_frac_end [OF assms]
        scan_exp_end [OF assms] digits_value_decimal_digits Number_of_integer_def)
next
  case False
  obtain c ds where ds: "decimal_digits (nat n) = c # ds"
    using decimal_digits_not_empty [of "nat n"] by (cases "decimal_digits (nat n)") auto
  with is_digit_decimal_digits [of c "nat n"] have "is_digit c" by simp
  then have c: "c \<noteq> 0x2D" by (auto simp: is_digit_def)
  from False have enc: "integer_text n @ rest = c # (ds @ rest)"
    by (simp add: integer_text_def ds)
  have int: "scan_int (c # (ds @ rest)) = Some (decimal_digits (nat n), rest)"
    using scan_int_digits_end [OF assms, of "nat n"] unfolding ds by simp
  show ?thesis
    unfolding enc using False c
    by (simp add: scan_number_def int scan_frac_end [OF assms]
        scan_exp_end [OF assms] digits_value_decimal_digits Number_of_integer_def)
qed

lemma integer_text_head:
  "\<exists>c ds. integer_text n = c # ds \<and> (c = 0x2D \<or> is_digit c)"
proof (cases "n < 0")
  case True
  then show ?thesis by (simp add: integer_text_def)
next
  case False
  obtain c ds where ds: "decimal_digits (nat n) = c # ds"
    using decimal_digits_not_empty [of "nat n"] by (cases "decimal_digits (nat n)") auto
  with is_digit_decimal_digits [of c "nat n"] have "is_digit c" by simp
  with False ds show ?thesis by (simp add: integer_text_def)
qed

lemma tokenize_integer_end:
  assumes "ends_number rest"
  shows "tokenize (integer_text n @ rest) = add_token (NumberToken (Number_of_integer n)) (tokenize rest)"
proof -
  from integer_text_head [of n] obtain c ds
    where ds: "integer_text n = c # ds" and c: "c = 0x2D \<or> is_digit c" by blast
  from c have u: "unat c = 45 \<or> (48 \<le> unat c \<and> unat c \<le> 57)"
    by (auto simp: is_digit_def)
  then have "\<not> is_whitespace c" "c \<noteq> 0x7B" "c \<noteq> 0x7D" "c \<noteq> 0x5B" "c \<noteq> 0x5D" "c \<noteq> 0x3A"
    "c \<noteq> 0x2C" "c \<noteq> 0x22"
    by (auto simp: is_whitespace_def)
  with c have "tokenize (c # (ds @ rest)) =
     (case scan_number (c # (ds @ rest)) of None \<Rightarrow> None
       | Some (n, r) \<Rightarrow> add_token (NumberToken n) (tokenize r))"
    by simp
  also have "c # (ds @ rest) = integer_text n @ rest"
    by (simp add: ds)
  finally show ?thesis
    unfolding scan_number_integer_end [OF assms] by simp
qed

lemma tokenize_lexeme:
  assumes "is_integer_lexeme l \<longrightarrow> ends_number rest"
  shows "tokenize (lexeme_text l @ rest) = add_token (lexeme_token l) (tokenize rest)"
proof (cases l)
  case (String_lexeme s)
  then show ?thesis by (simp add: tokenize_QuoteJSONString)
next
  case (Integer_lexeme n)
  with assms show ?thesis by (simp add: tokenize_integer_end)
qed (simp_all add: is_whitespace_def ascii_def is_digit_def)

lemma ends_number_lexeme:
  "\<not> is_integer_lexeme l \<Longrightarrow> ends_number (lexeme_text l @ rest)"
  by (cases l) (simp_all add: ends_number_def is_digit_def ascii_def QuoteJSONString_def)

lemma ends_number_whitespace:
  "list_all is_whitespace w \<Longrightarrow> ends_number rest \<Longrightarrow> ends_number (w @ rest)"
  by (cases w) (auto simp: ends_number_def is_whitespace_def is_digit_def)

lemma ends_number_render:
  assumes "list_all (list_all is_whitespace) ws" and "ls = [] \<or> \<not> is_integer_lexeme (hd ls)"
  shows "ends_number (render ws ls)"
proof (cases ls)
  case Nil
  with assms(1) show ?thesis
    using ends_number_whitespace [of "hd ws" "[]"]
    by (cases ws) (simp_all add: ends_number_def)
next
  case (Cons l ls')
  with assms(2) have "ends_number (lexeme_text l @ rest)" for rest
    by (simp add: ends_number_lexeme)
  with assms(1) Cons show ?thesis
    by (cases ws) (simp_all add: ends_number_whitespace)
qed

lemma tokenize_render:
  assumes "list_all (list_all is_whitespace) ws" and "separated ls"
  shows "tokenize (render ws ls) = Some (map lexeme_token ls)"
  using assms
proof (induction ls arbitrary: ws)
  case Nil
  then show ?case
    using tokenize_whitespace [of "hd ws" "[]"] by (cases ws) simp_all
next
  case (Cons l ls)
  from Cons.prems(2) have sep: "separated ls" and next_lexeme:
    "is_integer_lexeme l \<longrightarrow> ls = [] \<or> \<not> is_integer_lexeme (hd ls)"
    by (cases ls; simp)+
  have step: "tokenize (lexeme_text l @ render ws' ls) = Some (map lexeme_token (l # ls))"
    if ws': "list_all (list_all is_whitespace) ws'" for ws'
  proof -
    from next_lexeme ws' have "is_integer_lexeme l \<longrightarrow> ends_number (render ws' ls)"
      by (simp add: ends_number_render)
    from tokenize_lexeme [OF this] Cons.IH [OF ws' sep] show ?thesis
      by (simp add: add_token_def)
  qed
  show ?case
  proof (cases ws)
    case Nil
    with step [of "[]"] show ?thesis by simp
  next
    case (Cons w ws')
    with Cons.prems(1) step [of ws'] show ?thesis
      by (simp add: tokenize_whitespace)
  qed
qed

lemma separated_Cons: "\<not> is_integer_lexeme l \<Longrightarrow> separated (l # ls) = separated ls"
  by (cases ls) simp_all

lemma separated_snoc: "\<not> is_integer_lexeme l \<Longrightarrow> separated ls \<Longrightarrow> separated (ls @ [l])"
  by (induction ls rule: separated.induct) simp_all

lemma separated_append:
  "separated xs \<Longrightarrow> separated (l # ys) \<Longrightarrow> \<not> is_integer_lexeme l \<Longrightarrow> separated (xs @ l # ys)"
  by (induction xs rule: separated.induct) simp_all

lemma separated_separate:
  "\<forall>x \<in> set xs. separated x \<Longrightarrow> separated (separate xs)"
  by (induction xs rule: separate.induct) (simp_all add: separated_append separated_Cons)

lemma separated_document: "separated (document_lexemes d)"
proof (induction d)
  case (Array_literal ds)
  then have "separated (separate (map document_lexemes ds))"
    by (intro separated_separate) auto
  then show ?case by (simp add: separated_Cons separated_snoc)
next
  case (Object_literal ms)
  have "separated (separate (map (\<lambda>m. String_lexeme (fst m) # Name_separator # document_lexemes (snd m)) ms))"
  proof (intro separated_separate ballI)
    fix x assume "x \<in> set (map (\<lambda>m. String_lexeme (fst m) # Name_separator # document_lexemes (snd m)) ms)"
    then obtain k d where "(k, d) \<in> set ms" and x: "x = String_lexeme k # Name_separator # document_lexemes d"
      by auto
    with Object_literal [of "(k, d)" d] have "separated (document_lexemes d)" by simp
    then show "separated x" unfolding x by (simp add: separated_Cons)
  qed
  then show ?case by (simp add: separated_Cons separated_snoc)
qed simp_all

lemma document_tokens_head:
  "\<exists>t ts. map lexeme_token (document_lexemes d) = t # ts \<and> t \<noteq> RBracket
     \<and> step (ArrayStart st) t = step (ExpectValue (ArrayFrame [] # st)) t"
  by (cases d) simp_all

lemma run_array_elements:
  assumes "\<And>d st rest. d \<in> set (d0 # ds) \<Longrightarrow>
      run (ExpectValue st) (map lexeme_token (document_lexemes d) @ rest)
        = run (AfterValue (document_value d) st) rest"
  shows "run (ExpectValue (ArrayFrame vs # st))
           (map lexeme_token (separate (map document_lexemes (d0 # ds))) @ RBracket # rest)
         = run (AfterValue (JArray (vs @ map document_value (d0 # ds))) st) rest"
  using assms
proof (induction ds arbitrary: d0 vs)
  case Nil
  then show ?case by simp
next
  case (Cons d1 ds)
  have "run (ExpectValue (ArrayFrame vs # st))
           (map lexeme_token (separate (map document_lexemes (d0 # d1 # ds))) @ RBracket # rest)
      = run (ExpectValue (ArrayFrame vs # st))
           (map lexeme_token (document_lexemes d0)
            @ (Comma # map lexeme_token (separate (map document_lexemes (d1 # ds))) @ RBracket # rest))"
    by simp
  also have "\<dots> = run (ExpectValue (ArrayFrame (vs @ [document_value d0]) # st))
           (map lexeme_token (separate (map document_lexemes (d1 # ds))) @ RBracket # rest)"
    by (subst Cons.prems) simp_all
  also have "\<dots> = run (AfterValue (JArray ((vs @ [document_value d0]) @ map document_value (d1 # ds))) st) rest"
    by (rule Cons.IH) (simp add: Cons.prems)
  finally show ?case by simp
qed

lemma run_object_members:
  assumes "\<And>d st rest. d \<in> snd ` set (m0 # ms) \<Longrightarrow>
      run (ExpectValue st) (map lexeme_token (document_lexemes d) @ rest)
        = run (AfterValue (document_value d) st) rest"
  shows "run (ExpectName acc st)
           (map lexeme_token
              (separate (map (\<lambda>m. String_lexeme (fst m) # Name_separator # document_lexemes (snd m)) (m0 # ms)))
            @ RBrace # rest)
         = run (AfterValue
                  (JObject (foldl (\<lambda>members m. define_property members (fst m) (document_value (snd m)))
                     acc (m0 # ms))) st) rest"
  using assms
proof (induction ms arbitrary: m0 acc)
  case Nil
  have "run (ExpectName acc st)
          (StringToken (fst m0) # Colon # (map lexeme_token (document_lexemes (snd m0)) @ RBrace # rest))
      = run (ExpectValue (ObjectFrame acc (fst m0) # st))
          (map lexeme_token (document_lexemes (snd m0)) @ RBrace # rest)"
    by simp
  also have "\<dots> = run (AfterValue (document_value (snd m0)) (ObjectFrame acc (fst m0) # st)) (RBrace # rest)"
    by (rule Nil) simp
  finally show ?case by simp
next
  case (Cons m1 ms)
  have "run (ExpectName acc st)
           (map lexeme_token
              (separate (map (\<lambda>m. String_lexeme (fst m) # Name_separator # document_lexemes (snd m)) (m0 # m1 # ms)))
            @ RBrace # rest)
      = run (ExpectValue (ObjectFrame acc (fst m0) # st))
           (map lexeme_token (document_lexemes (snd m0))
            @ (Comma # map lexeme_token
              (separate (map (\<lambda>m. String_lexeme (fst m) # Name_separator # document_lexemes (snd m)) (m1 # ms)))
            @ RBrace # rest))"
    by simp
  also have "\<dots> = run (ExpectName (define_property acc (fst m0) (document_value (snd m0))) st)
           (map lexeme_token
              (separate (map (\<lambda>m. String_lexeme (fst m) # Name_separator # document_lexemes (snd m)) (m1 # ms)))
            @ RBrace # rest)"
    by (subst Cons.prems) simp_all
  also have "\<dots> = run (AfterValue
                  (JObject (foldl (\<lambda>members m. define_property members (fst m) (document_value (snd m)))
                     (define_property acc (fst m0) (document_value (snd m0))) (m1 # ms))) st) rest"
    by (rule Cons.IH) (simp add: Cons.prems)
  finally show ?case by simp
qed

lemma run_document:
  "run (ExpectValue st) (map lexeme_token (document_lexemes d) @ rest)
     = run (AfterValue (document_value d) st) rest"
proof (induction d arbitrary: st rest)
  case (Array_literal ds)
  show ?case
  proof (cases ds)
    case Nil
    then show ?thesis by simp
  next
    case (Cons d0 ds')
    from document_tokens_head [of d0 st] obtain t ts where
      head: "map lexeme_token (document_lexemes d0) = t # ts"
        "step (ArrayStart st) t = step (ExpectValue (ArrayFrame [] # st)) t"
      by auto
    obtain more where more:
      "map lexeme_token (separate (map document_lexemes (d0 # ds'))) @ RBracket # rest = t # more"
      using head(1) by (cases ds') simp_all
    have "run (ExpectValue st) (map lexeme_token (document_lexemes (Array_literal ds)) @ rest)
        = run (ArrayStart st) (map lexeme_token (separate (map document_lexemes (d0 # ds'))) @ RBracket # rest)"
      by (simp add: Cons)
    also have "\<dots> = run (ExpectValue (ArrayFrame [] # st))
          (map lexeme_token (separate (map document_lexemes (d0 # ds'))) @ RBracket # rest)"
      unfolding more using head(2) by simp
    also have "\<dots> = run (AfterValue (JArray ([] @ map document_value (d0 # ds'))) st) rest"
      by (rule run_array_elements) (simp add: Array_literal Cons)
    finally show ?thesis by (simp add: Cons)
  qed
next
  case (Object_literal ms)
  show ?case
  proof (cases ms)
    case Nil
    then show ?thesis by simp
  next
    case (Cons m0 ms')
    obtain more where more:
      "map lexeme_token
          (separate (map (\<lambda>m. String_lexeme (fst m) # Name_separator # document_lexemes (snd m)) (m0 # ms')))
        @ RBrace # rest = StringToken (fst m0) # more"
      by (cases ms') simp_all
    have "run (ExpectValue st) (map lexeme_token (document_lexemes (Object_literal ms)) @ rest)
        = run (ObjectStart st)
           (map lexeme_token
              (separate (map (\<lambda>m. String_lexeme (fst m) # Name_separator # document_lexemes (snd m)) (m0 # ms')))
            @ RBrace # rest)"
      by (simp add: Cons)
    also have "\<dots> = run (ExpectName [] st)
           (map lexeme_token
              (separate (map (\<lambda>m. String_lexeme (fst m) # Name_separator # document_lexemes (snd m)) (m0 # ms')))
            @ RBrace # rest)"
      unfolding more by simp
    also have "\<dots> = run (AfterValue
                  (JObject (foldl (\<lambda>members m. define_property members (fst m) (document_value (snd m)))
                     [] (m0 # ms'))) st) rest"
    proof (rule run_object_members)
      fix d st rest assume "d \<in> snd ` set (m0 # ms')"
      then obtain m where "m \<in> set ms" "d = snd m" unfolding Cons by blast
      then have "(fst m, d) \<in> set ms" by simp
      from Object_literal [OF this, of d st rest]
      show "run (ExpectValue st) (map lexeme_token (document_lexemes d) @ rest)
        = run (AfterValue (document_value d) st) rest" by simp
    qed
    finally show ?thesis by (simp add: Cons)
  qed
qed simp_all

lemma JSON_parse_document:
  assumes "list_all (list_all is_whitespace) ws"
  shows "JSON_parse (render ws (document_lexemes d)) = Inr (document_value d)"
proof -
  have "run (ExpectValue []) (map lexeme_token (document_lexemes d) @ [])
      = run (AfterValue (document_value d) []) []"
    by (rule run_document)
  then show ?thesis
    unfolding JSON_parse_def tokenize_render [OF assms separated_document] by simp
qed

lemma map_of_members:
  "map_of (foldl (\<lambda>members m. define_property members (fst m) (document_value (snd m))) acc ms) k
     = (case map_of (rev ms) k of None \<Rightarrow> map_of acc k | Some d \<Rightarrow> Some (document_value d))"
proof (induction ms arbitrary: acc)
  case Nil
  show ?case by simp
next
  case (Cons m ms)
  have "map_of (define_property acc (fst m) (document_value (snd m))) k
      = (if k = fst m then Some (document_value (snd m)) else map_of acc k)"
    by (simp add: define_property_def update_conv')
  then show ?case
    unfolding foldl_Cons Cons
    by (cases m) (simp add: map_add_def split: option.split)
qed

lemma Number_of_integer_exact:
  assumes "exact_double (nat \<bar>n\<bar>)"
  shows "Number_of_integer n = Finite (of_int n)"
proof (cases "n < 0")
  case True
  then have n: "nat \<bar>n\<bar> = nat (- n)" and r: "- (of_nat (nat (- n)) :: rat) = of_int n"
    and pos: "0 < nat (- n)"
    by simp_all
  from assms have "Number_of_decimal (nat (- n)) 0 = Finite (of_nat (nat (- n)))"
    unfolding n by (rule Number_of_decimal_exact)
  with True pos show ?thesis
    unfolding Number_of_integer_def r [symmetric] by simp
next
  case False
  then have n: "nat \<bar>n\<bar> = nat n" and r: "(of_nat (nat n) :: rat) = of_int n" by simp_all
  from assms have "Number_of_decimal (nat n) 0 = Finite (of_nat (nat n))"
    unfolding n by (rule Number_of_decimal_exact)
  with False show ?thesis
    unfolding Number_of_integer_def r [symmetric] by simp
qed

section \<open>Properties of the page's functions\<close>

lemma typeof_string: "(typeof v = Type_string) = (\<exists>s. v = JString s)"
  by (cases v) auto

lemma Array_isArray_iff: "Array_isArray v = (\<exists>vs. v = JArray vs)"
  by (cases v) auto

lemma all_strings_map: "list_all (\<lambda>t. typeof t = Type_string) (map JString ts)"
  by (induction ts) auto

lemma all_strings_ex:
  "list_all (\<lambda>t. typeof t = Type_string) vs \<Longrightarrow> \<exists>ts. vs = map JString ts"
proof (induction vs)
  case Nil
  then show ?case by simp
next
  case (Cons v vs)
  then obtain s ts where "v = JString s" "vs = map JString ts"
    by (auto simp: typeof_string)
  then have "v # vs = map JString (s # ts)" by simp
  then show ?case by (rule exI)
qed

lemma all_strings: "list_all (\<lambda>t. typeof t = Type_string) vs = (\<exists>ts. vs = map JString ts)"
  using all_strings_ex all_strings_map by auto

lemma isInteger_iff:
  "Number_isInteger v = (\<exists>T. v = JNumber T \<and> (T = NegZero \<or> (\<exists>k. T = Finite (of_int k))))"
proof (cases v)
  case (JNumber T)
  show ?thesis
  proof (cases T)
    case (Finite q)
    have "(of_int \<lfloor>q\<rfloor> = q) = (\<exists>k. q = of_int k)"
      by (metis floor_of_int)
    with JNumber Finite show ?thesis by simp
  qed (use JNumber in auto)
qed auto

lemma containsReportData_total: "\<exists>b. containsReportData v = Inr b"
  by (cases v)
    (auto simp: containsReportData_def and_also_def and_then_def Array_isArray_iff
          split: option.splits sum.splits)

lemma containsReportData_object:
  "containsReportData (JObject ms) =
     Inr ((\<exists>S. map_of ms (ascii ''sender'') = Some (JString S))
        \<and> (\<exists>T. map_of ms (ascii ''received_at'') = Some (JNumber T)
               \<and> (T = NegZero \<or> (\<exists>k. T = Finite (of_int k))))
        \<and> (\<exists>ts. map_of ms (ascii ''trackers'') = Some (JArray (map JString ts))))"
proof -
  have sender: "and_then (Get (JObject ms) (ascii ''sender'')) (\<lambda>sender. Inr (typeof sender = Type_string))
      = Inr (\<exists>S. map_of ms (ascii ''sender'') = Some (JString S))"
    by (auto simp: and_then_def typeof_string split: option.split)
  have received: "and_then (Get (JObject ms) (ascii ''received_at'')) (\<lambda>r. Inr (Number_isInteger r))
      = Inr (\<exists>T. map_of ms (ascii ''received_at'') = Some (JNumber T)
               \<and> (T = NegZero \<or> (\<exists>k. T = Finite (of_int k))))"
    by (auto simp: and_then_def isInteger_iff split: option.split)
  have is_array: "and_then (Get (JObject ms) (ascii ''trackers'')) (\<lambda>t. Inr (Array_isArray t))
      = Inr (\<exists>vs. map_of ms (ascii ''trackers'') = Some (JArray vs))"
    by (auto simp: and_then_def Array_isArray_iff split: option.split)
  have strings: "and_then (Get (JObject ms) (ascii ''trackers'')) (\<lambda>t. every t (\<lambda>tracker. typeof tracker = Type_string))
      = Inr (\<exists>ts. map_of ms (ascii ''trackers'') = Some (JArray (map JString ts)))"
    if "map_of ms (ascii ''trackers'') = Some (JArray vs)" for vs
    using that by (simp add: and_then_def all_strings)
  show ?thesis
    unfolding containsReportData_def sender received is_array
    using strings by (auto simp: and_also_def)
qed

lemma containsReportData_not_object:
  "\<forall>ms. v \<noteq> JObject ms \<Longrightarrow> containsReportData v = Inr False"
  by (cases v) (auto simp: containsReportData_def and_also_def and_then_def)

lemma parseHash_decode_error:
  "decodeURIComponent (substring hash 1) = Inl e \<Longrightarrow> parseHash hash = JNull"
  by (simp add: parseHash_def parseHash_try_def and_then_def)

lemma parseHash_syntax_error:
  "decodeURIComponent (substring hash 1) = Inr text \<Longrightarrow> JSON_parse text = Inl e
    \<Longrightarrow> parseHash hash = JNull"
  by (simp add: parseHash_def parseHash_try_def and_then_def)

lemma parseHash_rejected:
  "decodeURIComponent (substring hash 1) = Inr text \<Longrightarrow> JSON_parse text = Inr data
    \<Longrightarrow> containsReportData data = Inr False \<Longrightarrow> parseHash hash = JNull"
  by (simp add: parseHash_def parseHash_try_def and_then_def)

lemma parseHash_accepted:
  assumes "decodeURIComponent (substring hash 1) = Inr text" and "JSON_parse text = Inr data"
    and "containsReportData data = Inr True"
  shows "\<exists>s r t. Get data (ascii ''sender'') = Inr s \<and> Get data (ascii ''received_at'') = Inr r
           \<and> Get data (ascii ''trackers'') = Inr t
           \<and> parseHash hash =
               JObject [(ascii ''sender'', s), (ascii ''received_at'', r), (ascii ''trackers'', t)]"
proof -
  from assms(3) obtain ms where ms: "data = JObject ms"
    using containsReportData_not_object [of data] by auto
  show ?thesis
    using assms unfolding ms
    by (simp add: parseHash_def parseHash_try_def and_then_def split: option.split)
qed

lemma parseHash_report:
  assumes "decodeURIComponent (substring hash 1) = Inr text"
    and "JSON_parse text = Inr (JObject ms)"
    and "map_of ms (ascii ''sender'') = Some (JString S)"
    and "map_of ms (ascii ''received_at'') = Some (JNumber T)"
    and "T = NegZero \<or> (\<exists>k. T = Finite (of_int k))"
    and "map_of ms (ascii ''trackers'') = Some (JArray (map JString ts))"
  shows "parseHash hash = ReportData_object \<lparr>sender = S, received_at = T, trackers = ts\<rparr>"
proof -
  from assms(3-6) have "containsReportData (JObject ms) = Inr True"
    unfolding containsReportData_object by auto
  from parseHash_accepted [OF assms(1,2) this] assms(3,4,6) show ?thesis
    by (simp add: ReportData_object_def)
qed

lemma parseHash_cases:
  "parseHash hash = JNull
   \<or> (\<exists>text ms S T ts. decodeURIComponent (substring hash 1) = Inr text
        \<and> JSON_parse text = Inr (JObject ms)
        \<and> map_of ms (ascii ''sender'') = Some (JString S)
        \<and> map_of ms (ascii ''received_at'') = Some (JNumber T)
        \<and> (T = NegZero \<or> (\<exists>k. T = Finite (of_int k)))
        \<and> map_of ms (ascii ''trackers'') = Some (JArray (map JString ts))
        \<and> parseHash hash = ReportData_object \<lparr>sender = S, received_at = T, trackers = ts\<rparr>)"
proof (cases "decodeURIComponent (substring hash 1)")
  case (Inl e)
  then show ?thesis by (simp add: parseHash_decode_error)
next
  case body: (Inr body)
  show ?thesis
  proof (cases "JSON_parse body")
    case (Inl e)
    with body show ?thesis by (simp add: parseHash_syntax_error)
  next
    case data: (Inr data)
    show ?thesis
    proof (cases "\<exists>ms. data = JObject ms")
      case False
      then have "containsReportData data = Inr False"
        by (simp add: containsReportData_not_object)
      with body data show ?thesis by (simp add: parseHash_rejected)
    next
      case True
      then obtain ms where ms: "data = JObject ms" by blast
      show ?thesis
      proof (cases "containsReportData (JObject ms) = Inr True")
        case False
        then have "containsReportData data = Inr False"
          using containsReportData_total [of data] ms by auto
        with body data show ?thesis by (simp add: parseHash_rejected)
      next
        case True
        then obtain S T ts where shape:
          "map_of ms (ascii ''sender'') = Some (JString S)"
          "map_of ms (ascii ''received_at'') = Some (JNumber T)"
          "T = NegZero \<or> (\<exists>k. T = Finite (of_int k))"
          "map_of ms (ascii ''trackers'') = Some (JArray (map JString ts))"
          unfolding containsReportData_object by auto
        from parseHash_report [OF body data [unfolded ms] shape] body data ms shape
        show ?thesis by blast
      qed
    qed
  qed
qed

lemma parseHash_document:
  assumes "decodeURIComponent (substring hash 1) = Inr body"
    and "list_all (list_all is_whitespace) ws"
    and "body = render ws (document_lexemes (Object_literal members))"
    and "map_of (rev members) (ascii ''sender'') = Some (String_literal S)"
    and "map_of (rev members) (ascii ''received_at'') = Some (Integer_literal T)"
    and "exact_double (nat \<bar>T\<bar>)"
    and "map_of (rev members) (ascii ''trackers'') = Some (Array_literal (map String_literal ts))"
  shows "parseHash hash =
     ReportData_object \<lparr>sender = S, received_at = Finite (of_int T), trackers = ts\<rparr>"
proof -
  let ?ms = "foldl (\<lambda>members m. define_property members (fst m) (document_value (snd m))) [] members"
  have parsed: "JSON_parse body = Inr (JObject ?ms)"
    unfolding assms(3) JSON_parse_document [OF assms(2)] by simp
  have "map_of ?ms (ascii ''sender'') = Some (JString S)"
    and "map_of ?ms (ascii ''received_at'') = Some (JNumber (Finite (of_int T)))"
    and "Finite (of_int T) = NegZero \<or> (\<exists>k. Finite (of_int T) = Finite (of_int k))"
    and "map_of ?ms (ascii ''trackers'') = Some (JArray (map JString ts))"
    unfolding map_of_members
    by (auto simp: assms(4,5,7) Number_of_integer_exact [OF assms(6)] comp_def)
  from parseHash_report [OF assms(1) parsed this] show ?thesis .
qed

section \<open>Evaluation on concrete fragments\<close>

lemma Number_of_decimal_small: "n \<le> 2 ^ 53 \<Longrightarrow> Number_of_decimal n 0 = Finite (of_nat n)"
  by (rule Number_of_decimal_exact) (rule exact_double_small)

lemmas evaluation =
  ascii_def substring_def decodeURIComponent_def prepend_def hex_digit_def leading_ones_def
  is_continuation_octet_def UTF16EncodeCodePoint_def
  JSON_parse_def is_whitespace_def add_token_def add_unit_def escape_char_def is_digit_def
  scan_number_def scan_int_def scan_frac_def scan_exp_def scan_sign_def digits_value_def
  Number_of_decimal_small define_property_def

lemmas encoding =
  encode_report_def stringify_report_def QuoteJSONString_def integer_text_def
  decimal_digits.simps ascii_def is_leading_surrogate_def is_trailing_surrogate_def

text \<open>The example of the specification.\<close>

lemma decode_example:
  "decodeURIComponent (substring (ascii ''#{\"sender\":\"email@example.com\",\"received_at\":1654866361357,\"trackers\":[\"ads.facebook.com\",\"hi.com\"]}'') 1)
   = Inr (ascii ''{\"sender\":\"email@example.com\",\"received_at\":1654866361357,\"trackers\":[\"ads.facebook.com\",\"hi.com\"]}'')"
  by (simp add: evaluation)

lemma parse_example:
  "JSON_parse (ascii ''{\"sender\":\"email@example.com\",\"received_at\":1654866361357,\"trackers\":[\"ads.facebook.com\",\"hi.com\"]}'')
   = Inr (JObject [(ascii ''sender'', JString (ascii ''email@example.com'')),
                   (ascii ''received_at'', JNumber (Finite 1654866361357)),
                   (ascii ''trackers'', JArray (map JString [ascii ''ads.facebook.com'', ascii ''hi.com'']))])"
  by (simp add: evaluation)

text \<open>A report with a member that the page does not read.\<close>

lemma decode_extra:
  "decodeURIComponent (substring (ascii ''#{\"sender\":\"a@b.com\",\"received_at\":7,\"trackers\":[\"x.com\"],\"extra\":true}'') 1)
   = Inr (ascii ''{\"sender\":\"a@b.com\",\"received_at\":7,\"trackers\":[\"x.com\"],\"extra\":true}'')"
  by (simp add: evaluation)

lemma parse_extra:
  "JSON_parse (ascii ''{\"sender\":\"a@b.com\",\"received_at\":7,\"trackers\":[\"x.com\"],\"extra\":true}'')
   = Inr (JObject [(ascii ''sender'', JString (ascii ''a@b.com'')),
                   (ascii ''received_at'', JNumber (Finite 7)),
                   (ascii ''trackers'', JArray [JString (ascii ''x.com'')]),
                   (ascii ''extra'', JBoolean True)])"
  by (simp add: evaluation)



lemma decode_missing:
  "decodeURIComponent (substring (ascii ''#{\"sender\":\"a@b.com\",\"received_at\":1}'') 1)
   = Inr (ascii ''{\"sender\":\"a@b.com\",\"received_at\":1}'')"
  by (simp add: evaluation)

lemma parse_missing:
  "JSON_parse (ascii ''{\"sender\":\"a@b.com\",\"received_at\":1}'')
   = Inr (JObject [(ascii ''sender'', JString (ascii ''a@b.com'')),
                   (ascii ''received_at'', JNumber (Finite 1))])"
  by (simp add: evaluation)

text \<open>An array, an unfinished object, and fragments whose percent-encoding is malformed.\<close>

lemma decode_array: "decodeURIComponent (substring (ascii ''#[1,2,3]'') 1) = Inr (ascii ''[1,2,3]'')"
  by (simp add: evaluation)

lemma parse_array:
  "JSON_parse (ascii ''[1,2,3]'')
   = Inr (JArray [JNumber (Finite 1), JNumber (Finite 2), JNumber (Finite 3)])"
  by (simp add: evaluation)

lemma decode_brace: "decodeURIComponent (substring (ascii ''#{'') 1) = Inr (ascii ''{'')"
  by (simp add: evaluation)

lemma parse_brace: "JSON_parse (ascii ''{'') = Inl SyntaxError"
  by (simp add: evaluation)

lemma decode_lone_percent: "decodeURIComponent (substring (ascii ''#%'') 1) = Inl URIError"
  by (simp add: evaluation)

lemma decode_truncated_escape: "decodeURIComponent (substring (ascii ''#%2'') 1) = Inl URIError"
  by (simp add: evaluation)

text \<open>The empty fragment.\<close>

lemma decode_empty: "decodeURIComponent [] = Inr []"
  by (simp add: decodeURIComponent_def)

lemma parse_empty: "JSON_parse [] = Inl SyntaxError"
  by (simp add: JSON_parse_def)

text \<open>Encoded reports: a sender with a percent sign, and a time above \<open>2\<^sup>5\<^sup>3\<close>.\<close>

lemma encode_percent:
  "encode_report (ascii ''%41'') 1 [] = ascii ''#{\"sender\":\"%41\",\"received_at\":1,\"trackers\":[]}''"
  by (simp add: encoding)

lemma decode_percent:
  "decodeURIComponent (substring (ascii ''#{\"sender\":\"%41\",\"received_at\":1,\"trackers\":[]}'') 1)
   = Inr (ascii ''{\"sender\":\"A\",\"received_at\":1,\"trackers\":[]}'')"
  by (simp add: evaluation)

lemma parse_percent:
  "JSON_parse (ascii ''{\"sender\":\"A\",\"received_at\":1,\"trackers\":[]}'')
   = Inr (JObject [(ascii ''sender'', JString (ascii ''A'')),
                   (ascii ''received_at'', JNumber (Finite 1)),
                   (ascii ''trackers'', JArray (map JString []))])"
  by (simp add: evaluation)

lemma encode_large:
  "encode_report (ascii ''a'') 9007199254740993 []
   = ascii ''#{\"sender\":\"a\",\"received_at\":9007199254740993,\"trackers\":[]}''"
  by (simp add: encoding)

lemma decode_large:
  "decodeURIComponent (substring (ascii ''#{\"sender\":\"a\",\"received_at\":9007199254740993,\"trackers\":[]}'') 1)
   = Inr (ascii ''{\"sender\":\"a\",\"received_at\":9007199254740993,\"trackers\":[]}'')"
  by (simp add: evaluation)

lemma Number_value_large: "Number_of_decimal 9007199254740993 0 = Finite 9007199254740992"
  by (simp del: One_nat_def
      add: Number_of_decimal_def Number_value_nat compute_floorlog round_half_even_def)

lemma parse_large:
  "JSON_parse (ascii ''{\"sender\":\"a\",\"received_at\":9007199254740993,\"trackers\":[]}'')
   = Inr (JObject [(ascii ''sender'', JString (ascii ''a'')),
                   (ascii ''received_at'', JNumber (Finite 9007199254740992)),
                   (ascii ''trackers'', JArray (map JString []))])"
  by (simp add: evaluation Number_value_large)

text \<open>A report written with a space after each colon and comma.\<close>

lemma render_spaced:
  "render [[], [], [], [0x20], [], [0x20], [], [0x20], [], [0x20], [], [0x20], [], [], [0x20], [], [0x20]]
     (document_lexemes (Object_literal
        [(ascii ''sender'', String_literal (ascii ''a@b.com'')),
         (ascii ''received_at'', Integer_literal 1654866361357),
         (ascii ''trackers'',
            Array_literal (map String_literal [ascii ''x.com'', ascii ''y.com'', ascii ''x.com'']))]))
   = ascii ''{\"sender\": \"a@b.com\", \"received_at\": 1654866361357, \"trackers\": [\"x.com\", \"y.com\", \"x.com\"]}''"
  by (simp add: encoding)

lemma decode_spaced:
  "decodeURIComponent (substring (ascii ''#{\"sender\": \"a@b.com\", \"received_at\": 1654866361357, \"trackers\": [\"x.com\", \"y.com\", \"x.com\"]}'') 1)
   = Inr (ascii ''{\"sender\": \"a@b.com\", \"received_at\": 1654866361357, \"trackers\": [\"x.com\", \"y.com\", \"x.com\"]}'')"
  by (simp add: evaluation)

section \<open>The platform functions on known inputs\<close>

text \<open>
  Values that a JavaScript engine gives, as checks of the definitions above: the doubles
  nearest to 0.1 and 2.5, a tie that goes to the even significand, UTF-8 sequences, and
  texts that are not JSON.
\<close>

lemmas number_evaluation =
  Number_of_decimal_def Number_value_def floor_log2_def compute_floorlog round_half_even_def
  scale2_def Let_def

lemma Number_of_one_tenth:
  "Number_of_decimal 1 (- 1) = Finite (3602879701896397 / 36028797018963968)"
  by (simp add: number_evaluation)

lemma Number_of_tie: "Number_of_decimal 9007199254740995 0 = Finite 9007199254740996"
  by (simp add: number_evaluation)

lemma JSON_parse_numbers:
  "JSON_parse (ascii ''[-0, 2.5, 1e2]'')
   = Inr (JArray [JNumber NegZero, JNumber (Finite (5 / 2)), JNumber (Finite 100)])"
  by (simp add: evaluation number_evaluation)

lemma JSON_parse_duplicate_member:
  "JSON_parse (ascii '' { \"a\" : [true, false, null, {}, [], -0, 2.5e1], \"a\" : \"x\" } '')
   = Inr (JObject [(ascii ''a'', JString (ascii ''x''))])"
  by (simp add: evaluation number_evaluation)

lemma JSON_parse_escapes:
  "JSON_parse ([0x22, 0x5C, 0x75] @ ascii ''00e9'' @ [0x5C, 0x6E, 0x22]) = Inr (JString [0xE9, 0x0A])"
  by (simp add: evaluation)

lemma JSON_parse_errors:
  "JSON_parse (ascii ''[1,]'') = Inl SyntaxError" "JSON_parse (ascii ''01'') = Inl SyntaxError"
  "JSON_parse (ascii ''{\"a\"}'') = Inl SyntaxError" "JSON_parse (ascii ''nul'') = Inl SyntaxError"
  "JSON_parse (ascii ''1 2'') = Inl SyntaxError" "JSON_parse (ascii ''\"abc'') = Inl SyntaxError"
  "JSON_parse (ascii ''+1'') = Inl SyntaxError" "JSON_parse (ascii ''1.'') = Inl SyntaxError"
  by (simp_all add: evaluation)

lemma continuation_step:
  "0 < j \<Longrightarrow> continuation j (c # s) =
     (if c \<noteq> 0x25 then None
      else case hex_octet s of
        None \<Rightarrow> None
      | Some (b, r) \<Rightarrow>
          (case continuation (j - 1) r of None \<Rightarrow> None | Some (bs, r') \<Rightarrow> Some (b # bs, r')))"
  by (cases j) (simp_all split: option.split)

lemma decodeURIComponent_utf8:
  "decodeURIComponent (ascii ''a%20b%7B'') = Inr (ascii ''a b{'')"
  "decodeURIComponent (ascii ''%E2%82%AC'') = Inr [0x20AC]"
  "decodeURIComponent (ascii ''%F0%9F%98%80'') = Inr [0xD83D, 0xDE00]"
  by (simp_all add: evaluation continuation_step)

lemma decodeURIComponent_errors:
  "decodeURIComponent (ascii ''%C0%80'') = Inl URIError"
  "decodeURIComponent (ascii ''%ED%A0%80'') = Inl URIError"
  "decodeURIComponent (ascii ''%E2%82'') = Inl URIError"
  "decodeURIComponent (ascii ''%80'') = Inl URIError"
  by (simp_all add: evaluation continuation_step)

section \<open>The claims\<close>

text \<open>
  C1, as the specification states it: for every fragment whose decoded body is a record
  with a string \<open>sender\<close> \<open>S\<close>, an integer \<open>received_at\<close> \<open>T\<close> and a
  \<open>trackers\<close> array of strings, \<open>parseHash\<close> returns the report with exactly \<open>S\<close>,
  \<open>T\<close> and the trackers. A body for which it does not: in it \<open>received_at\<close> is the
  integer \<open>2\<^sup>5\<^sup>3 + 1\<close>, and the report returned has the time \<open>2\<^sup>5\<^sup>3\<close>, since
  \<^verbatim>\<open>JSON.parse\<close> reads a number as the nearest double.
\<close>

theorem parseHash_valid_report_counterexample:
  "render [] (document_lexemes (Object_literal
        [(ascii ''sender'', String_literal (ascii ''a'')),
         (ascii ''received_at'', Integer_literal 9007199254740993),
         (ascii ''trackers'', Array_literal [])]))
     = ascii ''{\"sender\":\"a\",\"received_at\":9007199254740993,\"trackers\":[]}''
   \<and> decodeURIComponent (substring (ascii ''#{\"sender\":\"a\",\"received_at\":9007199254740993,\"trackers\":[]}'') 1)
     = Inr (ascii ''{\"sender\":\"a\",\"received_at\":9007199254740993,\"trackers\":[]}'')
   \<and> parseHash (ascii ''#{\"sender\":\"a\",\"received_at\":9007199254740993,\"trackers\":[]}'')
     = JObject [(ascii ''sender'', JString (ascii ''a'')),
                (ascii ''received_at'', JNumber (Finite 9007199254740992)),
                (ascii ''trackers'', JArray [])]
   \<and> parseHash (ascii ''#{\"sender\":\"a\",\"received_at\":9007199254740993,\"trackers\":[]}'')
     \<noteq> JObject [(ascii ''sender'', JString (ascii ''a'')),
                (ascii ''received_at'', JNumber (Finite 9007199254740993)),
                (ascii ''trackers'', JArray [])]"
proof -
  let ?l = "[(ascii ''sender'', JString (ascii ''a'')),
             (ascii ''received_at'', JNumber (Finite 9007199254740992)),
             (ascii ''trackers'', JArray (map JString []))]"
  have "map_of ?l (ascii ''sender'') = Some (JString (ascii ''a''))"
    and "map_of ?l (ascii ''received_at'') = Some (JNumber (Finite 9007199254740992))"
    and "Finite 9007199254740992 = NegZero \<or> (\<exists>k. Finite 9007199254740992 = Finite (of_int k))"
    and "map_of ?l (ascii ''trackers'') = Some (JArray (map JString []))"
    by (auto simp: ascii_def intro: exI [of _ 9007199254740992])
  from parseHash_report [OF decode_large parse_large this]
  have result: "parseHash (ascii ''#{\"sender\":\"a\",\"received_at\":9007199254740993,\"trackers\":[]}'')
     = JObject [(ascii ''sender'', JString (ascii ''a'')),
                (ascii ''received_at'', JNumber (Finite 9007199254740992)),
                (ascii ''trackers'', JArray [])]"
    by (simp add: ReportData_object_def)
  have rendered: "render [] (document_lexemes (Object_literal
        [(ascii ''sender'', String_literal (ascii ''a'')),
         (ascii ''received_at'', Integer_literal 9007199254740993),
         (ascii ''trackers'', Array_literal [])]))
     = ascii ''{\"sender\":\"a\",\"received_at\":9007199254740993,\"trackers\":[]}''"
    by (simp add: encoding)
  show ?thesis
    unfolding result using rendered decode_large by simp
qed

text \<open>
  C1, amended: for every fragment whose decoded body is a record with a string
  \<open>sender\<close> \<open>S\<close>, an integer \<open>received_at\<close> \<open>T\<close> that a double represents
  exactly, and a \<open>trackers\<close> array of strings \<open>ts\<close>, \<open>parseHash\<close> returns the report
  with exactly these three fields: \<open>S\<close>, \<open>T\<close>, and \<open>ts\<close> in its order and with its
  duplicates. The body is the text of an object, with any white space between its
  lexemes, its members in any order and other members among them; the last member of a
  name counts. The second part is the same for a record in any JSON notation, of the
  fields as \<^verbatim>\<open>JSON.parse\<close> reads them.
\<close>

theorem parseHash_valid_report:
  assumes "decodeURIComponent (substring hash 1) = Inr body"
  shows "(\<forall>ws members S T ts.
            list_all (list_all is_whitespace) ws
            \<longrightarrow> body = render ws (document_lexemes (Object_literal members))
            \<longrightarrow> map_of (rev members) (ascii ''sender'') = Some (String_literal S)
            \<longrightarrow> map_of (rev members) (ascii ''received_at'') = Some (Integer_literal T)
            \<longrightarrow> exact_double (nat \<bar>T\<bar>)
            \<longrightarrow> map_of (rev members) (ascii ''trackers'') = Some (Array_literal (map String_literal ts))
            \<longrightarrow> parseHash hash =
                  JObject [(ascii ''sender'', JString S),
                           (ascii ''received_at'', JNumber (Finite (of_int T))),
                           (ascii ''trackers'', JArray (map JString ts))])
       \<and> (\<forall>ms S T ts.
            JSON_parse body = Inr (JObject ms)
            \<longrightarrow> map_of ms (ascii ''sender'') = Some (JString S)
            \<longrightarrow> map_of ms (ascii ''received_at'') = Some (JNumber T)
            \<longrightarrow> (T = NegZero \<or> (\<exists>k. T = Finite (of_int k)))
            \<longrightarrow> map_of ms (ascii ''trackers'') = Some (JArray (map JString ts))
            \<longrightarrow> parseHash hash =
                  JObject [(ascii ''sender'', JString S),
                           (ascii ''received_at'', JNumber T),
                           (ascii ''trackers'', JArray (map JString ts))])"
proof (intro conjI allI impI)
  fix ws members S T ts
  assume "list_all (list_all is_whitespace) ws"
    "body = render ws (document_lexemes (Object_literal members))"
    "map_of (rev members) (ascii ''sender'') = Some (String_literal S)"
    "map_of (rev members) (ascii ''received_at'') = Some (Integer_literal T)"
    "exact_double (nat \<bar>T\<bar>)"
    "map_of (rev members) (ascii ''trackers'') = Some (Array_literal (map String_literal ts))"
  from parseHash_document [OF assms this]
  show "parseHash hash =
      JObject [(ascii ''sender'', JString S),
               (ascii ''received_at'', JNumber (Finite (of_int T))),
               (ascii ''trackers'', JArray (map JString ts))]"
    by (simp add: ReportData_object_def)
next
  fix ms S T ts
  assume "JSON_parse body = Inr (JObject ms)"
    "map_of ms (ascii ''sender'') = Some (JString S)"
    "map_of ms (ascii ''received_at'') = Some (JNumber T)"
    "T = NegZero \<or> (\<exists>k. T = Finite (of_int k))"
    "map_of ms (ascii ''trackers'') = Some (JArray (map JString ts))"
  from parseHash_report [OF assms this]
  show "parseHash hash =
      JObject [(ascii ''sender'', JString S),
               (ascii ''received_at'', JNumber T),
               (ascii ''trackers'', JArray (map JString ts))]"
    by (simp add: ReportData_object_def)
qed

theorem parseHash_valid_report_witness:
  "parseHash (ascii ''#{\"sender\": \"a@b.com\", \"received_at\": 1654866361357, \"trackers\": [\"x.com\", \"y.com\", \"x.com\"]}'')
   = JObject [(ascii ''sender'', JString (ascii ''a@b.com'')),
              (ascii ''received_at'', JNumber (Finite 1654866361357)),
              (ascii ''trackers'', JArray [JString (ascii ''x.com''), JString (ascii ''y.com''), JString (ascii ''x.com'')])]"
proof -
  let ?ws = "[[], [], [], [0x20], [], [0x20], [], [0x20], [], [0x20], [], [0x20], [], [], [0x20], [], [0x20]]
    :: jsstring list"
  let ?members = "[(ascii ''sender'', String_literal (ascii ''a@b.com'')),
         (ascii ''received_at'', Integer_literal 1654866361357),
         (ascii ''trackers'',
            Array_literal (map String_literal [ascii ''x.com'', ascii ''y.com'', ascii ''x.com'']))]"
  have white: "list_all (list_all is_whitespace) ?ws"
    by (simp add: is_whitespace_def)
  have sender: "map_of (rev ?members) (ascii ''sender'') = Some (String_literal (ascii ''a@b.com''))"
    and received: "map_of (rev ?members) (ascii ''received_at'') = Some (Integer_literal 1654866361357)"
    and trackers: "map_of (rev ?members) (ascii ''trackers'')
       = Some (Array_literal (map String_literal [ascii ''x.com'', ascii ''y.com'', ascii ''x.com'']))"
    by (simp_all add: ascii_def)
  have exact: "exact_double (nat \<bar>1654866361357\<bar>)"
    by (rule exact_double_small) simp
  from parseHash_valid_report [OF decode_spaced, THEN conjunct1, rule_format,
      OF white render_spaced [symmetric] sender received exact trackers]
  show ?thesis by simp
qed

text \<open>
  C2, as the specification states it: a successful parse copies the three fields and
  renames \<open>received_at\<close> to \<open>receivedAt\<close>. The page does not rename the field: the
  report it returns for the specification's example has no property \<open>receivedAt\<close>, and
  has the time under \<open>received_at\<close>.
\<close>

theorem parseHash_renames_counterexample:
  "Get (parseHash (ascii ''#{\"sender\":\"email@example.com\",\"received_at\":1654866361357,\"trackers\":[\"ads.facebook.com\",\"hi.com\"]}''))
       (ascii ''receivedAt'') = Inr JUndefined
   \<and> Get (parseHash (ascii ''#{\"sender\":\"email@example.com\",\"received_at\":1654866361357,\"trackers\":[\"ads.facebook.com\",\"hi.com\"]}''))
       (ascii ''received_at'') = Inr (JNumber (Finite 1654866361357))"
proof -
  let ?ms = "[(ascii ''sender'', JString (ascii ''email@example.com'')),
              (ascii ''received_at'', JNumber (Finite 1654866361357)),
              (ascii ''trackers'', JArray (map JString [ascii ''ads.facebook.com'', ascii ''hi.com'']))]"
  have sender: "map_of ?ms (ascii ''sender'') = Some (JString (ascii ''email@example.com''))"
    and received: "map_of ?ms (ascii ''received_at'') = Some (JNumber (Finite 1654866361357))"
    and trackers: "map_of ?ms (ascii ''trackers'')
       = Some (JArray (map JString [ascii ''ads.facebook.com'', ascii ''hi.com'']))"
    by (simp_all add: ascii_def)
  have "Finite 1654866361357 = NegZero \<or> (\<exists>k. Finite 1654866361357 = Finite (of_int k))"
    by (auto intro: exI [of _ 1654866361357])
  from parseHash_report [OF decode_example parse_example sender received this trackers]
  show ?thesis by (simp add: ReportData_object_def ascii_def)
qed

text \<open>
  C2, amended: a successful parse returns an object with exactly three properties, named
  \<open>sender\<close>, \<open>received_at\<close> and \<open>trackers\<close>, each holding the value of the property
  of that name of the decoded record; no other member of the record is in the result.
\<close>

theorem parseHash_copies_three_fields:
  assumes "parseHash hash \<noteq> JNull"
  shows "\<exists>body ms s r t.
           decodeURIComponent (substring hash 1) = Inr body
         \<and> JSON_parse body = Inr (JObject ms)
         \<and> map_of ms (ascii ''sender'') = Some s
         \<and> map_of ms (ascii ''received_at'') = Some r
         \<and> map_of ms (ascii ''trackers'') = Some t
         \<and> parseHash hash =
             JObject [(ascii ''sender'', s), (ascii ''received_at'', r), (ascii ''trackers'', t)]"
  using parseHash_cases [of hash] assms
  by (auto simp: ReportData_object_def)

theorem parseHash_copies_three_fields_witness:
  "\<exists>s r t. parseHash (ascii ''#{\"sender\":\"a@b.com\",\"received_at\":7,\"trackers\":[\"x.com\"],\"extra\":true}'')
      = JObject [(ascii ''sender'', s), (ascii ''received_at'', r), (ascii ''trackers'', t)]"
proof -
  let ?ms = "[(ascii ''sender'', JString (ascii ''a@b.com'')),
              (ascii ''received_at'', JNumber (Finite 7)),
              (ascii ''trackers'', JArray [JString (ascii ''x.com'')]),
              (ascii ''extra'', JBoolean True)]"
  have sender: "map_of ?ms (ascii ''sender'') = Some (JString (ascii ''a@b.com''))"
    and received: "map_of ?ms (ascii ''received_at'') = Some (JNumber (Finite 7))"
    and trackers: "map_of ?ms (ascii ''trackers'') = Some (JArray (map JString [ascii ''x.com'']))"
    by (simp_all add: ascii_def)
  have "Finite 7 = NegZero \<or> (\<exists>k. Finite 7 = Finite (of_int k))"
    by (auto intro: exI [of _ 7])
  from parseHash_report [OF decode_extra parse_extra sender received this trackers]
  have "parseHash (ascii ''#{\"sender\":\"a@b.com\",\"received_at\":7,\"trackers\":[\"x.com\"],\"extra\":true}'') \<noteq> JNull"
    by (simp add: ReportData_object_def)
  from parseHash_copies_three_fields [OF this] show ?thesis by blast
qed

text \<open>
  C3. For a fragment whose body decodes and parses, \<open>parseHash\<close> returns a report if and
  only if the parsed value is a record whose \<open>sender\<close> is a string, whose
  \<open>received_at\<close> is an integer and whose \<open>trackers\<close> is an array of strings; the
  report then has all three fields, and in every other case the result is \<^verbatim>\<open>null\<close>.
\<close>

theorem parseHash_accepts_iff:
  assumes "decodeURIComponent (substring hash 1) = Inr body"
    and "JSON_parse body = Inr data"
  shows "((parseHash hash \<noteq> JNull) =
           (\<exists>ms S T ts. data = JObject ms
              \<and> map_of ms (ascii ''sender'') = Some (JString S)
              \<and> map_of ms (ascii ''received_at'') = Some (JNumber T)
              \<and> (T = NegZero \<or> (\<exists>k. T = Finite (of_int k)))
              \<and> map_of ms (ascii ''trackers'') = Some (JArray (map JString ts))))
       \<and> (parseHash hash = JNull
          \<or> (\<exists>S T ts. parseHash hash =
               JObject [(ascii ''sender'', JString S),
                        (ascii ''received_at'', JNumber T),
                        (ascii ''trackers'', JArray (map JString ts))]))"
proof (intro conjI iffI)
  assume "parseHash hash \<noteq> JNull"
  with parseHash_cases [of hash] assms
  show "\<exists>ms S T ts. data = JObject ms
            \<and> map_of ms (ascii ''sender'') = Some (JString S)
            \<and> map_of ms (ascii ''received_at'') = Some (JNumber T)
            \<and> (T = NegZero \<or> (\<exists>k. T = Finite (of_int k)))
            \<and> map_of ms (ascii ''trackers'') = Some (JArray (map JString ts))"
    by auto
next
  assume "\<exists>ms S T ts. data = JObject ms
            \<and> map_of ms (ascii ''sender'') = Some (JString S)
            \<and> map_of ms (ascii ''received_at'') = Some (JNumber T)
            \<and> (T = NegZero \<or> (\<exists>k. T = Finite (of_int k)))
            \<and> map_of ms (ascii ''trackers'') = Some (JArray (map JString ts))"
  then obtain ms S T ts where shape: "data = JObject ms"
    "map_of ms (ascii ''sender'') = Some (JString S)"
    "map_of ms (ascii ''received_at'') = Some (JNumber T)"
    "T = NegZero \<or> (\<exists>k. T = Finite (of_int k))"
    "map_of ms (ascii ''trackers'') = Some (JArray (map JString ts))"
    by blast
  from parseHash_report [OF assms(1) assms(2) [unfolded shape(1)] shape(2-)]
  show "parseHash hash \<noteq> JNull" by (simp add: ReportData_object_def)
next
  from parseHash_cases [of hash]
  show "parseHash hash = JNull
         \<or> (\<exists>S T ts. parseHash hash =
               JObject [(ascii ''sender'', JString S),
                        (ascii ''received_at'', JNumber T),
                        (ascii ''trackers'', JArray (map JString ts))])"
    by (auto simp: ReportData_object_def)
qed

theorem parseHash_accepts_iff_witness:
  "parseHash (ascii ''#{\"sender\":\"a@b.com\",\"received_at\":1}'') = JNull"
proof -
  have "\<not> (\<exists>ms S T ts.
           JObject [(ascii ''sender'', JString (ascii ''a@b.com'')),
                    (ascii ''received_at'', JNumber (Finite 1))] = JObject ms
              \<and> map_of ms (ascii ''sender'') = Some (JString S)
              \<and> map_of ms (ascii ''received_at'') = Some (JNumber T)
              \<and> (T = NegZero \<or> (\<exists>k. T = Finite (of_int k)))
              \<and> map_of ms (ascii ''trackers'') = Some (JArray (map JString ts)))"
    by (auto simp: ascii_def)
  with parseHash_accepts_iff [OF decode_missing parse_missing] show ?thesis
    by blast
qed

text \<open>
  C4. For every string \<open>parseHash\<close> returns a value, which is either \<^verbatim>\<open>null\<close> or a
  report with a string, an integer and an array of strings, never both. Every failure
  gives the same \<^verbatim>\<open>null\<close>: an exception anywhere in the \<^verbatim>\<open>try\<close> block, a body that
  does not decode, a body that is not JSON, and a value that is not a report. The
  check of the value's shape throws nothing itself.
\<close>

theorem parseHash_total:
  "(parseHash hash = JNull
      \<or> (\<exists>S T ts. (T = NegZero \<or> (\<exists>k. T = Finite (of_int k)))
            \<and> parseHash hash = ReportData_object \<lparr>sender = S, received_at = T, trackers = ts\<rparr>))
   \<and> (\<forall>r. ReportData_object r \<noteq> JNull)
   \<and> (\<forall>e. parseHash_try hash = Inl e \<longrightarrow> parseHash hash = JNull)
   \<and> (\<forall>e. decodeURIComponent (substring hash 1) = Inl e \<longrightarrow> parseHash hash = JNull)
   \<and> (\<forall>body e. decodeURIComponent (substring hash 1) = Inr body \<longrightarrow> JSON_parse body = Inl e
         \<longrightarrow> parseHash hash = JNull)
   \<and> (\<forall>body data. decodeURIComponent (substring hash 1) = Inr body \<longrightarrow> JSON_parse body = Inr data
         \<longrightarrow> containsReportData data = Inr False \<longrightarrow> parseHash hash = JNull)
   \<and> (\<forall>data. \<exists>b. containsReportData data = Inr b)"
proof (intro conjI allI impI)
  from parseHash_cases [of hash]
  show "parseHash hash = JNull
      \<or> (\<exists>S T ts. (T = NegZero \<or> (\<exists>k. T = Finite (of_int k)))
            \<and> parseHash hash = ReportData_object \<lparr>sender = S, received_at = T, trackers = ts\<rparr>)"
    by blast
next
  fix r show "ReportData_object r \<noteq> JNull"
    by (simp add: ReportData_object_def)
next
  fix e assume "parseHash_try hash = Inl e"
  then show "parseHash hash = JNull" by (simp add: parseHash_def)
next
  fix e assume "decodeURIComponent (substring hash 1) = Inl e"
  then show "parseHash hash = JNull" by (rule parseHash_decode_error)
next
  fix body e
  assume "decodeURIComponent (substring hash 1) = Inr body" "JSON_parse body = Inl e"
  then show "parseHash hash = JNull" by (rule parseHash_syntax_error)
next
  fix body data
  assume "decodeURIComponent (substring hash 1) = Inr body" "JSON_parse body = Inr data"
    "containsReportData data = Inr False"
  then show "parseHash hash = JNull" by (rule parseHash_rejected)
next
  fix data show "\<exists>b. containsReportData data = Inr b"
    by (rule containsReportData_total)
qed

theorem parseHash_total_witness: "parseHash (ascii ''#{'') = JNull"
  using parseHash_total [of "ascii ''#{''"] decode_brace parse_brace by blast

text \<open>
  C5. \<open>parseHash\<close> returns \<^verbatim>\<open>null\<close> for the empty string and for \<^verbatim>\<open>#\<close>: without its
  first character either is the empty string, which decodes to the empty string, and
  that is not a JSON text.
\<close>

theorem parseHash_empty:
  "parseHash [] = JNull \<and> parseHash (ascii ''#'') = JNull
   \<and> substring [] 1 = [] \<and> substring (ascii ''#'') 1 = []
   \<and> decodeURIComponent [] = Inr [] \<and> JSON_parse [] = Inl SyntaxError"
proof -
  have empty: "substring [] 1 = []" and hash: "substring (ascii ''#'') 1 = []"
    by (simp_all add: substring_def ascii_def)
  have "decodeURIComponent (substring [] 1) = Inr []"
    unfolding empty by (rule decode_empty)
  then have "parseHash [] = JNull"
    using parse_empty by (rule parseHash_syntax_error)
  moreover have "decodeURIComponent (substring (ascii ''#'') 1) = Inr []"
    unfolding hash by (rule decode_empty)
  then have "parseHash (ascii ''#'') = JNull"
    using parse_empty by (rule parseHash_syntax_error)
  ultimately show ?thesis
    using empty hash decode_empty parse_empty by simp
qed

text \<open>
  C6. When the decoded body is a JSON text whose value is not a record (a primitive or
  an array), \<open>parseHash\<close> returns \<^verbatim>\<open>null\<close>.
\<close>

theorem parseHash_not_a_record:
  assumes "decodeURIComponent (substring hash 1) = Inr body"
    and "JSON_parse body = Inr data"
    and "\<forall>ms. data \<noteq> JObject ms"
  shows "parseHash hash = JNull"
  using assms(1,2) containsReportData_not_object [OF assms(3)] by (rule parseHash_rejected)

theorem parseHash_not_a_record_witness: "parseHash (ascii ''#[1,2,3]'') = JNull"
  using parseHash_not_a_record [OF decode_array parse_array] by simp

text \<open>
  C7, as the specification states it: encoding any report and parsing the result gives
  the report back. Two reports for which it does not: the percent escape in the sender
  \<^verbatim>\<open>%41\<close> is decoded, so that the sender comes back as \<^verbatim>\<open>A\<close>; and the time
  \<open>2\<^sup>5\<^sup>3 + 1\<close>, which no Number holds, comes back as \<open>2\<^sup>5\<^sup>3\<close>.
\<close>

theorem round_trip_counterexample:
  "parseHash (encode_report (ascii ''%41'') 1 [])
     = ReportData_object \<lparr>sender = ascii ''A'', received_at = Finite 1, trackers = []\<rparr>
   \<and> parseHash (encode_report (ascii ''%41'') 1 [])
     \<noteq> ReportData_object \<lparr>sender = ascii ''%41'', received_at = Finite 1, trackers = []\<rparr>
   \<and> parseHash (encode_report (ascii ''a'') 9007199254740993 [])
     = ReportData_object \<lparr>sender = ascii ''a'', received_at = Finite 9007199254740992, trackers = []\<rparr>
   \<and> parseHash (encode_report (ascii ''a'') 9007199254740993 [])
     \<noteq> ReportData_object \<lparr>sender = ascii ''a'', received_at = Finite 9007199254740993, trackers = []\<rparr>"
proof -
  let ?p = "[(ascii ''sender'', JString (ascii ''A'')),
             (ascii ''received_at'', JNumber (Finite 1)),
             (ascii ''trackers'', JArray (map JString []))]"
  have "map_of ?p (ascii ''sender'') = Some (JString (ascii ''A''))"
    and "map_of ?p (ascii ''received_at'') = Some (JNumber (Finite 1))"
    and "Finite 1 = NegZero \<or> (\<exists>k. Finite 1 = Finite (of_int k))"
    and "map_of ?p (ascii ''trackers'') = Some (JArray (map JString []))"
    by (auto simp: ascii_def intro: exI [of _ 1])
  from parseHash_report [OF decode_percent parse_percent this]
  have percent: "parseHash (encode_report (ascii ''%41'') 1 [])
     = ReportData_object \<lparr>sender = ascii ''A'', received_at = Finite 1, trackers = []\<rparr>"
    unfolding encode_percent .
  let ?l = "[(ascii ''sender'', JString (ascii ''a'')),
             (ascii ''received_at'', JNumber (Finite 9007199254740992)),
             (ascii ''trackers'', JArray (map JString []))]"
  have "map_of ?l (ascii ''sender'') = Some (JString (ascii ''a''))"
    and "map_of ?l (ascii ''received_at'') = Some (JNumber (Finite 9007199254740992))"
    and "Finite 9007199254740992 = NegZero \<or> (\<exists>k. Finite 9007199254740992 = Finite (of_int k))"
    and "map_of ?l (ascii ''trackers'') = Some (JArray (map JString []))"
    by (auto simp: ascii_def intro: exI [of _ 9007199254740992])
  from parseHash_report [OF decode_large parse_large this]
  have large: "parseHash (encode_report (ascii ''a'') 9007199254740993 [])
     = ReportData_object \<lparr>sender = ascii ''a'', received_at = Finite 9007199254740992, trackers = []\<rparr>"
    unfolding encode_large .
  show ?thesis
    unfolding percent large by (simp add: ReportData_object_def ascii_def)
qed

text \<open>
  C7, amended: for every report whose sender and trackers contain no percent sign and
  whose time is an integer that a double represents exactly, parsing its encoding (the
  JSON text of the object, after a \<^verbatim>\<open>#\<close>) gives a report equal to it in all three
  fields.
\<close>

theorem round_trip:
  assumes "0x25 \<notin> set S" and "\<forall>t \<in> set ts. 0x25 \<notin> set t"
    and "exact_double (nat \<bar>T\<bar>)"
  shows "parseHash (encode_report S T ts)
     = ReportData_object \<lparr>sender = S, received_at = Finite (of_int T), trackers = ts\<rparr>"
proof -
  let ?ms = "[(ascii ''sender'', JString S),
              (ascii ''received_at'', JNumber (Finite (of_int T))),
              (ascii ''trackers'', JArray (map JString ts))]"
  have "map_of ?ms (ascii ''sender'') = Some (JString S)"
    and "map_of ?ms (ascii ''received_at'') = Some (JNumber (Finite (of_int T)))"
    and "Finite (of_int T) = NegZero \<or> (\<exists>k. Finite (of_int T) = Finite (of_int k))"
    and "map_of ?ms (ascii ''trackers'') = Some (JArray (map JString ts))"
    using keys_distinct by auto
  from parseHash_report
    [OF decode_encode_report [OF assms(1,2)] JSON_parse_stringify_report [OF assms(3)] this]
  show ?thesis .
qed

theorem round_trip_witness:
  "parseHash (encode_report (ascii ''email@example.com'') 1654866361357
       [ascii ''ads.facebook.com'', ascii ''hi.com''])
     = ReportData_object \<lparr>sender = ascii ''email@example.com'',
         received_at = Finite 1654866361357,
         trackers = [ascii ''ads.facebook.com'', ascii ''hi.com'']\<rparr>"
proof -
  have "0x25 \<notin> set (ascii ''email@example.com'')"
    and "\<forall>t \<in> set [ascii ''ads.facebook.com'', ascii ''hi.com'']. 0x25 \<notin> set t"
    by (simp_all add: ascii_def)
  moreover have "exact_double (nat \<bar>1654866361357\<bar>)"
    by (rule exact_double_small) simp
  ultimately show ?thesis
    using round_trip [of "ascii ''email@example.com''"
        "[ascii ''ads.facebook.com'', ascii ''hi.com'']" 1654866361357]
    by simp
qed



text \<open>
  C10. When decoding the body throws, \<open>parseHash\<close> returns \<^verbatim>\<open>null\<close> as for every
  other failure. Decoding throws whenever a percent sign is not followed by two
  hexadecimal digits, as in \<^verbatim>\<open>%\<close> and \<^verbatim>\<open>%2\<close>.
\<close>

theorem parseHash_malformed_escape:
  "(decodeURIComponent (substring hash 1) = Inl e \<longrightarrow> parseHash hash = JNull)
   \<and> (0x25 \<notin> set pre \<longrightarrow> hex_octet s = None \<longrightarrow>
        decodeURIComponent (pre @ 0x25 # s) = Inl URIError
        \<and> parseHash (c # pre @ 0x25 # s) = JNull)"
proof (intro conjI impI)
  assume "decodeURIComponent (substring hash 1) = Inl e"
  then show "parseHash hash = JNull" by (rule parseHash_decode_error)
next
  assume "0x25 \<notin> set pre" "hex_octet s = None"
  then show d: "decodeURIComponent (pre @ 0x25 # s) = Inl URIError"
    unfolding decodeURIComponent_def by (induction pre) (auto simp: prepend_def)
  have "substring (c # pre @ 0x25 # s) 1 = pre @ 0x25 # s"
    by (simp add: substring_def)
  with d show "parseHash (c # pre @ 0x25 # s) = JNull"
    by (simp add: parseHash_decode_error)
qed

theorem parseHash_malformed_escape_witness:
  "parseHash (ascii ''#%'') = JNull \<and> parseHash (ascii ''#%2'') = JNull"
  using parseHash_malformed_escape [of "ascii ''#%''" URIError]
    parseHash_malformed_escape [of "ascii ''#%2''" URIError]
    decode_lone_percent decode_truncated_escape
  by blast

end
